theory Spec2Isabelle
  imports Complex_Main "HOL-Library.AList"
begin

section \<open>Values, exceptions and the outside world\<close>

text \<open>
  The notebook \<^verbatim>\<open>labs/03-orchestration/03-VectorStore/mongo.ipynb\<close> is glue code around
  three collaborators: a MongoDB-compatible document server, an embedding endpoint and a
  retry decorator. The code cells are embedded as functions over an explicit world state;
  the collaborators are either a parameter of the model (the endpoint's replies, the
  random numbers, the outcome of an insertion) or a small model of their documented
  behaviour (the server's collections, the decorator's loop).

  JSON values and Python dictionaries: a dictionary is an association list, which keeps
  the insertion order as a Python \<^verbatim>\<open>dict\<close> does.
\<close>

datatype jval =
    JNull
  | JBool bool
  | JInt int
  | JNum real
  | JStr string
  | JArr "jval list"
  | JObj "(string \<times> jval) list"

datatype exn =
    KeyError string
  | TypeError
  | IndexError
  | ApiError string
  | OperationFailure string
  | InvalidName string
  | RetryError exn

text \<open>
  What the run leaves behind, in order: requests to the embedding endpoint, the naps of the
  retry decorator, insertions, and the progress lines and pauses of the ingestion loop.
\<close>

datatype event =
    EmbeddingRequest jval
  | RetryWait real
  | Inserted string string jval
  | Progress nat string
  | Pause real
  | Finished string

record collection_state =
  documents :: "jval list"
  index_specs :: "jval list"

type_synonym database_state = "string \<rightharpoonup> collection_state"

record world =
  databases :: "string \<rightharpoonup> database_state"
  issued :: "(string \<times> jval) list"
  api_calls :: nat
  draws :: nat
  insertions :: nat
  trace :: "event list"

text \<open>
  The environment fixes what the collaborators answer: the reply of the \<open>n\<close>-th request to
  the embedding endpoint (to the input, the deployment name and the requested number of
  dimensions; a reply is the list of the embeddings under \<^verbatim>\<open>data\<close>), the \<open>n\<close>-th number
  drawn by \<^verbatim>\<open>random.random()\<close>, and whether the \<open>n\<close>-th insertion is refused.
\<close>

record env =
  embeddings_create :: "nat \<Rightarrow> jval \<Rightarrow> string option \<Rightarrow> nat \<Rightarrow> exn + real list list"
  random_unit :: "nat \<Rightarrow> real"
  insert_refused :: "nat \<Rightarrow> jval \<Rightarrow> exn option"

text \<open>The values read from the \<^verbatim>\<open>.env\<close> file.\<close>

record config =
  cosmos_database :: string
  cosmos_collection :: string
  cosmos_vector_property :: string
  cosmos_cache :: string
  embedding_deployment :: "string option"

section \<open>The document server\<close>

text \<open>
  Modelled from the spec: the document server (Azure Cosmos DB for MongoDB, reached through
  the pymongo client) is an external collaborator whose code is not among the repository's
  sources. The spec describes it as a store of records, kept in collections, that the
  notebook sets up, fills and queries. The model keeps, for every database, its
  collections with their documents in insertion order and their index specifications; a
  database is listed when the server holds it, and dropping it removes it with all its
  collections. Network and authentication failures are outside the model.
\<close>

record handle =
  database_name :: string
  name :: string

text \<open>
  \<^verbatim>\<open>cosmos_client[name]\<close> and \<^verbatim>\<open>database[name]\<close> make a handle without talking to the
  server, but the client checks the name first and raises \<^verbatim>\<open>InvalidName\<close> for one it does
  not accept. A database name must not be empty nor contain a space, a dot, a dollar sign,
  a slash, a backslash, the NUL character or a double quote (\<^verbatim>\<open>$external\<close> excepted). A
  collection name must not be empty nor contain two dots in a row, must not contain a
  dollar sign unless it starts with \<^verbatim>\<open>oplog.$main\<close> or \<^verbatim>\<open>$cmd\<close>, must not start or end
  with a dot, and must not contain the NUL character. The checks are made in this order.
  The checks belong to the pymongo client, like the rest of this section, and are modelled
  as that client documents them.
\<close>

definition invalid_database_chars :: "char list" where
  "invalid_database_chars =
     [CHR '' '', CHR ''.'', CHR ''$'', CHR ''/'', CHR 0x5C, CHR 0x00, CHR 0x22]"

definition check_database_name :: "string \<Rightarrow> exn option" where
  "check_database_name n =
     (if n = ''$external'' then None
      else if n = [] then Some (InvalidName ''database name cannot be the empty string'')
      else if list_ex (\<lambda>c. c \<in> set n) invalid_database_chars
        then Some (InvalidName ''database names cannot contain the character'')
      else None)"

fun double_dot :: "string \<Rightarrow> bool" where
  "double_dot (a # b # rest) = ((a = CHR ''.'' \<and> b = CHR ''.'') \<or> double_dot (b # rest))"
| "double_dot _ = False"

definition check_collection_name :: "string \<Rightarrow> exn option" where
  "check_collection_name n =
     (if n = [] \<or> double_dot n then Some (InvalidName ''collection names cannot be empty'')
      else if CHR ''$'' \<in> set n \<and> \<not> (take 11 n = ''oplog.$main'' \<or> take 4 n = ''$cmd'')
        then Some (InvalidName ''collection names must not contain $'')
      else if hd n = CHR ''.'' \<or> last n = CHR ''.''
        then Some (InvalidName ''collection names must not start or end with .'')
      else if CHR 0x00 \<in> set n
        then Some (InvalidName ''collection names must not contain the null character'')
      else None)"

definition get_database :: "string \<Rightarrow> exn + string" where
  "get_database n = (case check_database_name n of Some e \<Rightarrow> Inl e | None \<Rightarrow> Inr n)"

definition get_collection :: "string \<Rightarrow> string \<Rightarrow> exn + handle" where
  "get_collection database n =
     (case check_collection_name n of
        Some e \<Rightarrow> Inl e
      | None \<Rightarrow> Inr \<lparr>database_name = database, name = n\<rparr>)"

definition empty_collection :: collection_state where
  "empty_collection = \<lparr>documents = [], index_specs = []\<rparr>"

definition the_database :: "world \<Rightarrow> string \<Rightarrow> database_state" where
  "the_database w db = (case databases w db of None \<Rightarrow> Map.empty | Some d \<Rightarrow> d)"

definition the_collection :: "world \<Rightarrow> string \<Rightarrow> string \<Rightarrow> collection_state" where
  "the_collection w db c = (case the_database w db c of None \<Rightarrow> empty_collection | Some co \<Rightarrow> co)"

definition put_collection :: "string \<Rightarrow> string \<Rightarrow> collection_state \<Rightarrow> world \<Rightarrow> world" where
  "put_collection db c co w = w\<lparr>databases := (databases w)(db \<mapsto> (the_database w db)(c \<mapsto> co))\<rparr>"

definition list_database_names :: "world \<Rightarrow> string set" where
  "list_database_names w = dom (databases w)"

text \<open>
  \<^verbatim>\<open>cosmos_client.drop_database(name)\<close> reaches the database through \<^verbatim>\<open>cosmos_client[name]\<close>,
  so it raises for a name that the client does not accept.
\<close>

definition drop_database :: "string \<Rightarrow> world \<Rightarrow> (exn + unit) \<times> world" where
  "drop_database n w =
     (case get_database n of
        Inl e \<Rightarrow> (Inl e, w)
      | Inr db \<Rightarrow> (Inr (), w\<lparr>databases := (databases w)(db := None)\<rparr>))"

text \<open>
  \<^verbatim>\<open>createIndexes\<close>: the server creates the collection when it does not exist, keeps an
  index that is already there with the same specification, and refuses an index whose
  name is taken by a different specification.
\<close>

definition index_name :: "jval \<Rightarrow> jval option" where
  "index_name spec = (case spec of JObj kvs \<Rightarrow> map_of kvs ''name'' | _ \<Rightarrow> None)"

definition conflicts :: "jval list \<Rightarrow> jval \<Rightarrow> bool" where
  "conflicts existing spec = list_ex (\<lambda>old. index_name old = index_name spec \<and> old \<noteq> spec) existing"

fun add_indexes :: "jval list \<Rightarrow> jval list \<Rightarrow> exn + jval list" where
  "add_indexes existing [] = Inr existing"
| "add_indexes existing (spec # specs) =
     (if conflicts existing spec then Inl (OperationFailure ''IndexOptionsConflict'')
      else add_indexes (if spec \<in> set existing then existing else existing @ [spec]) specs)"

definition create_indexes :: "string \<Rightarrow> string \<Rightarrow> jval list \<Rightarrow> world \<Rightarrow> (exn + unit) \<times> world" where
  "create_indexes db c specs w =
     (let co = the_collection w db c in
      case add_indexes (index_specs co) specs of
        Inl e \<Rightarrow> (Inl e, w)
      | Inr ix \<Rightarrow> (Inr (), put_collection db c (co\<lparr>index_specs := ix\<rparr>) w))"

text \<open>
  \<^verbatim>\<open>database.command(document)\<close>: the document handed to the call is recorded as issued,
  then the command is run. Only \<^verbatim>\<open>createIndexes\<close> is modelled, the one command the notebook
  issues.
\<close>

definition command :: "string \<Rightarrow> jval \<Rightarrow> world \<Rightarrow> (exn + unit) \<times> world" where
  "command db cmd w =
     (let w' = w\<lparr>issued := issued w @ [(db, cmd)]\<rparr> in
      case cmd of
        JObj kvs \<Rightarrow>
          (case (map_of kvs ''createIndexes'', map_of kvs ''indexes'') of
             (Some (JStr c), Some (JArr specs)) \<Rightarrow> create_indexes db c specs w'
           | _ \<Rightarrow> (Inl (OperationFailure ''CommandNotFound''), w'))
      | _ \<Rightarrow> (Inl TypeError, w'))"

section \<open>Creating a collection with a vector index\<close>

text \<open>
  \<^verbatim>\<open>
  def create_collection_and_vector_index(database, cosmos_collection, vector_property,
                                         embeddings_dimensions):
      collection = database[cosmos_collection]
      database.command({
          "createIndexes": cosmos_collection,
          "indexes": [{
              "name": "VectorSearchIndex",
              "key": { vector_property: "cosmosSearch" },
              "cosmosSearchOptions": {
                  "kind": "vector-hnsw", "m": 16, "efConstruction": 64,
                  "similarity": "COS", "dimensions": 1536 } }] })
      return collection
  \<close>
  The second parameter is called \<open>collection_name\<close> here, since \<open>cosmos_collection\<close> is also
  the notebook's global of that name.
\<close>

definition create_collection_and_vector_index ::
  "string \<Rightarrow> string \<Rightarrow> string \<Rightarrow> jval \<Rightarrow> world \<Rightarrow> (exn + handle) \<times> world" where
  "create_collection_and_vector_index database collection_name vector_property embeddings_dimensions w =
     (case get_collection database collection_name of
        Inl e \<Rightarrow> (Inl e, w)
      | Inr collection \<Rightarrow>
      case command database
             (JObj [(''createIndexes'', JStr collection_name),
                    (''indexes'', JArr [
                       JObj [(''name'', JStr ''VectorSearchIndex''),
                             (''key'', JObj [(vector_property, JStr ''cosmosSearch'')]),
                             (''cosmosSearchOptions'', JObj [
                                (''kind'', JStr ''vector-hnsw''),
                                (''m'', JInt 16),
                                (''efConstruction'', JInt 64),
                                (''similarity'', JStr ''COS''),
                                (''dimensions'', JInt 1536)])]])]) w of
        (Inl e, w') \<Rightarrow> (Inl e, w')
      | (Inr _, w') \<Rightarrow> (Inr collection, w'))"

section \<open>Creating the database and the two collections\<close>

text \<open>
  \<^verbatim>\<open>
  if cosmos_database in cosmos_client.list_database_names():
      cosmos_client.drop_database(cosmos_database)
  database = cosmos_client[cosmos_database]
  collection = create_collection_and_vector_index(database, cosmos_collection,
                                                  cosmos_vector_property, 1536)
  cache = create_collection_and_vector_index(database, cosmos_cache,
                                             cosmos_vector_property, 1536)
  \<close>
\<close>

definition database_setup :: "config \<Rightarrow> world \<Rightarrow> (exn + handle \<times> handle) \<times> world" where
  "database_setup cfg w =
     (case (if cosmos_database cfg \<in> list_database_names w
            then drop_database (cosmos_database cfg) w else (Inr (), w)) of
        (Inl e, w1) \<Rightarrow> (Inl e, w1)
      | (Inr _, w1) \<Rightarrow>
          (case get_database (cosmos_database cfg) of
             Inl e \<Rightarrow> (Inl e, w1)
           | Inr database \<Rightarrow>
               (case create_collection_and_vector_index database (cosmos_collection cfg)
                       (cosmos_vector_property cfg) (JInt 1536) w1 of
                  (Inl e, w2) \<Rightarrow> (Inl e, w2)
                | (Inr collection, w2) \<Rightarrow>
                    (case create_collection_and_vector_index database (cosmos_cache cfg)
                            (cosmos_vector_property cfg) (JInt 1536) w2 of
                       (Inl e, w3) \<Rightarrow> (Inl e, w3)
                     | (Inr cache, w3) \<Rightarrow> (Inr (collection, cache), w3)))))"

section \<open>Generating embeddings, with retries\<close>

text \<open>
  \<^verbatim>\<open>
  @retry(wait=wait_random_exponential(min=1, max=200), stop=stop_after_attempt(20))
  def generate_embeddings(text):
      response = openai_client.embeddings.create(
          input=text,
          model=os.getenv("AZURE_OPENAI_EMBEDDING_DEPLOYMENT_NAME"),
          dimensions=1536)
      embeddings = response.model_dump()
      return embeddings['data'][0]['embedding']
  \<close>
  The body makes one request. The request can raise, and so can \<^verbatim>\<open>['data'][0]\<close> when the
  reply carries no embedding.
\<close>

definition reply_embedding :: "exn + real list list \<Rightarrow> exn + real list" where
  "reply_embedding reply =
     (case reply of
        Inl e \<Rightarrow> Inl e
      | Inr data \<Rightarrow> (case data of [] \<Rightarrow> Inl IndexError | item # _ \<Rightarrow> Inr item))"

definition generate_embeddings_body :: "env \<Rightarrow> config \<Rightarrow> jval \<Rightarrow> world \<Rightarrow> (exn + real list) \<times> world" where
  "generate_embeddings_body env cfg text w =
     (reply_embedding (embeddings_create env (api_calls w) text (embedding_deployment cfg) 1536),
      w\<lparr>api_calls := Suc (api_calls w), trace := trace w @ [EmbeddingRequest text]\<rparr>)"

text \<open>
  Modelled from the spec: the decorator (\<^verbatim>\<open>retry\<close> with \<^verbatim>\<open>stop_after_attempt\<close> and
  \<^verbatim>\<open>wait_random_exponential\<close>) belongs to the tenacity library, whose code is not among
  the repository's sources. The spec describes the policy as a randomized exponential wait
  bounded to a maximum interval and a stop after a fixed number of attempts, after which
  the failure surfaces. The definitions below follow that description and the library's
  documentation. Attempts are numbered from 1. After an attempt that raised,
  \<open>stop_after_attempt n\<close> gives up when the attempt's number has reached \<open>n\<close>, and the
  caller gets a \<^verbatim>\<open>RetryError\<close> around the last exception; otherwise the decorator sleeps
  and calls again. \<open>wait_random_exponential\<close> (multiplier 1, base 2) draws the nap
  uniformly between its minimum and an upper end that doubles with every attempt and is
  capped by its maximum; \<^verbatim>\<open>random.uniform(a, b)\<close> is \<^verbatim>\<open>a + (b - a) * random.random()\<close>.
  Older releases of the library draw from 0 instead of the minimum; the statements below
  use no more of the lower end than that a nap is not negative.
\<close>

definition stop_after_attempt :: "nat \<Rightarrow> nat \<Rightarrow> bool" where
  "stop_after_attempt max_attempt_number attempt_number = (max_attempt_number \<le> attempt_number)"

definition wait_exponential :: "real \<Rightarrow> real \<Rightarrow> nat \<Rightarrow> real" where
  "wait_exponential lo hi attempt_number = max (max 0 lo) (min (2 ^ (attempt_number - 1)) hi)"

definition uniform :: "real \<Rightarrow> real \<Rightarrow> real \<Rightarrow> real" where
  "uniform a b u = a + (b - a) * u"

definition wait_random_exponential :: "env \<Rightarrow> real \<Rightarrow> real \<Rightarrow> nat \<Rightarrow> world \<Rightarrow> real \<times> world" where
  "wait_random_exponential env lo hi attempt_number w =
     (uniform lo (wait_exponential lo hi attempt_number) (random_unit env (draws w)),
      w\<lparr>draws := Suc (draws w)\<rparr>)"

definition nap :: "real \<Rightarrow> world \<Rightarrow> world" where
  "nap seconds w = w\<lparr>trace := trace w @ [RetryWait seconds]\<rparr>"

function retry_call ::
  "env \<Rightarrow> nat \<Rightarrow> real \<Rightarrow> real \<Rightarrow> (world \<Rightarrow> (exn + 'a) \<times> world) \<Rightarrow> nat \<Rightarrow> world \<Rightarrow> (exn + 'a) \<times> world" where
  "retry_call env max_attempt_number lo hi fn attempt_number w =
     (case fn w of
        (Inr result, w1) \<Rightarrow> (Inr result, w1)
      | (Inl e, w1) \<Rightarrow>
          if stop_after_attempt max_attempt_number attempt_number then (Inl (RetryError e), w1)
          else (case wait_random_exponential env lo hi attempt_number w1 of
                  (seconds, w2) \<Rightarrow>
                    retry_call env max_attempt_number lo hi fn (Suc attempt_number) (nap seconds w2)))"
  by pat_completeness auto
termination
  by (relation "measure (\<lambda>(env, max_attempt_number, lo, hi, fn, attempt_number, w).
                            max_attempt_number - attempt_number)")
     (auto simp: stop_after_attempt_def)

declare retry_call.simps [simp del]

definition generate_embeddings :: "env \<Rightarrow> config \<Rightarrow> jval \<Rightarrow> world \<Rightarrow> (exn + real list) \<times> world" where
  "generate_embeddings env cfg text w =
     retry_call env 20 1 200 (generate_embeddings_body env cfg text) 1 w"

section \<open>Stream, vectorize and store\<close>

text \<open>
  Python's \<^verbatim>\<open>object[key]\<close> and \<^verbatim>\<open>object[key] = value\<close> with a string key: meaningful on a
  dictionary only. Assigning to a key that is present keeps its place, a new key goes last.
\<close>

definition getitem :: "jval \<Rightarrow> string \<Rightarrow> exn + jval" where
  "getitem object key =
     (case object of
        JObj kvs \<Rightarrow> (case map_of kvs key of None \<Rightarrow> Inl (KeyError key) | Some v \<Rightarrow> Inr v)
      | _ \<Rightarrow> Inl TypeError)"

definition setitem :: "jval \<Rightarrow> string \<Rightarrow> jval \<Rightarrow> exn + jval" where
  "setitem object key v =
     (case object of
        JObj kvs \<Rightarrow> Inr (JObj (AList.update key v kvs))
      | _ \<Rightarrow> Inl TypeError)"

text \<open>
  \<^verbatim>\<open>collection.insert_one(document)\<close>: the server may refuse the document (the
  environment decides); otherwise it appends it to the collection, which it creates when
  it does not exist. The \<^verbatim>\<open>_id\<close> that the server assigns is not modelled.
\<close>

definition insert_one :: "env \<Rightarrow> handle \<Rightarrow> jval \<Rightarrow> world \<Rightarrow> (exn + unit) \<times> world" where
  "insert_one env collection document w =
     (let db = database_name collection; c = name collection;
          w' = w\<lparr>insertions := Suc (insertions w)\<rparr>
      in case document of
           JObj kvs \<Rightarrow>
             (case insert_refused env (insertions w) document of
                Some e \<Rightarrow> (Inl e, w')
              | None \<Rightarrow>
                  (Inr (),
                   put_collection db c
                     ((the_collection w' db c)\<lparr>documents := documents (the_collection w' db c) @ [document]\<rparr>)
                     (w'\<lparr>trace := trace w' @ [Inserted db c document]\<rparr>)))
         | _ \<Rightarrow> (Inl TypeError, w))"

text \<open>
  \<^verbatim>\<open>
  stream = urllib.request.urlopen(storage_file_url)
  counter = 0
  for object in ijson.items(stream, 'item', use_float=True):
      vectorArray = generate_embeddings(object['overview'])
      object[cosmos_vector_property] = vectorArray
      collection.insert_one(object)
      counter += 1
      if counter % 100 == 0:
          print("Inserted {} documents into collection: '{}'.".format(counter, collection.name))
          sleep(.5)
  print("Data inserted into collection: '{}'.\n".format(collection.name))
  \<close>
  The stream is the finite list of the items of the remote JSON array, read once from
  front to back. \<open>ingest\<close> is the loop, \<open>ingestion\<close> the cell.
\<close>

definition print_progress :: "nat \<Rightarrow> string \<Rightarrow> world \<Rightarrow> world" where
  "print_progress counter collection_name w = w\<lparr>trace := trace w @ [Progress counter collection_name]\<rparr>"

definition sleep :: "real \<Rightarrow> world \<Rightarrow> world" where
  "sleep seconds w = w\<lparr>trace := trace w @ [Pause seconds]\<rparr>"

fun ingest :: "env \<Rightarrow> config \<Rightarrow> handle \<Rightarrow> jval list \<Rightarrow> nat \<Rightarrow> world \<Rightarrow> (exn + nat) \<times> world" where
  "ingest env cfg collection [] counter w = (Inr counter, w)"
| "ingest env cfg collection (object # rest) counter w =
     (case getitem object ''overview'' of
        Inl e \<Rightarrow> (Inl e, w)
      | Inr text \<Rightarrow>
          (case generate_embeddings env cfg text w of
             (Inl e, w1) \<Rightarrow> (Inl e, w1)
           | (Inr vectorArray, w1) \<Rightarrow>
               (case setitem object (cosmos_vector_property cfg) (JArr (map JNum vectorArray)) of
                  Inl e \<Rightarrow> (Inl e, w1)
                | Inr object' \<Rightarrow>
                    (case insert_one env collection object' w1 of
                       (Inl e, w2) \<Rightarrow> (Inl e, w2)
                     | (Inr _, w2) \<Rightarrow>
                         ingest env cfg collection rest (counter + 1)
                           (if (counter + 1) mod 100 = 0
                            then sleep (1 / 2) (print_progress (counter + 1) (name collection) w2)
                            else w2)))))"

definition ingestion :: "env \<Rightarrow> config \<Rightarrow> handle \<Rightarrow> jval list \<Rightarrow> world \<Rightarrow> (exn + nat) \<times> world" where
  "ingestion env cfg collection stream w =
     (case ingest env cfg collection stream 0 w of
        (Inl e, w') \<Rightarrow> (Inl e, w')
      | (Inr counter, w') \<Rightarrow> (Inr counter, w'\<lparr>trace := trace w' @ [Finished (name collection)]\<rparr>))"

section \<open>Notions for the statements\<close>

text \<open>
  The index specification that \<open>create_collection_and_vector_index\<close> sends, under a name
  for the statements below.
\<close>

definition vector_search_index :: "string \<Rightarrow> jval" where
  "vector_search_index vp = JObj [(''name'', JStr ''VectorSearchIndex''),
                        (''key'', JObj [(vp, JStr ''cosmosSearch'')]),
                        (''cosmosSearchOptions'', JObj [
                           (''kind'', JStr ''vector-hnsw''),
                           (''m'', JInt 16),
                           (''efConstruction'', JInt 64),
                           (''similarity'', JStr ''COS''),
                           (''dimensions'', JInt 1536)])]"

text \<open>
  The outcome of the \<open>n\<close>-th request when it asks for the embedding of \<open>text\<close>, as the body
  of \<open>generate_embeddings\<close> sees it; the events that belong to the attempts for
  \<open>text\<close>; and the world after a request, and after a failed request and the nap that
  follows it.
\<close>

definition attempt_reply :: "env \<Rightarrow> config \<Rightarrow> jval \<Rightarrow> nat \<Rightarrow> exn + real list" where
  "attempt_reply env cfg text n =
     reply_embedding (embeddings_create env n text (embedding_deployment cfg) 1536)"

fun is_attempt :: "jval \<Rightarrow> event \<Rightarrow> bool" where
  "is_attempt text (EmbeddingRequest t) = (t = text)"
| "is_attempt text (RetryWait seconds) = True"
| "is_attempt text _ = False"

definition requested :: "jval \<Rightarrow> world \<Rightarrow> world" where
  "requested text w = w\<lparr>api_calls := Suc (api_calls w), trace := trace w @ [EmbeddingRequest text]\<rparr>"

definition waited :: "env \<Rightarrow> real \<Rightarrow> real \<Rightarrow> nat \<Rightarrow> jval \<Rightarrow> world \<Rightarrow> world" where
  "waited env lo hi a text w =
     w\<lparr>api_calls := Suc (api_calls w), draws := Suc (draws w),
       trace := trace w @ [EmbeddingRequest text,
          RetryWait (uniform lo (wait_exponential lo hi a) (random_unit env (draws w)))]\<rparr>"

text \<open>
  What the ingestion loop is expected to leave behind. A stored document is the record with
  a value assigned to the vector property. An embedded one carries there the vector, of
  the given number of dimensions, that the endpoint returned to one of the requests
  numbered from \<open>first\<close> up to, but not including, \<open>beyond\<close> when it was asked for the
  embedding of the record's overview. \<open>single_pass\<close> reads the events of a run against the
  stream: for each record in turn, the attempts to embed its overview, then its insertion,
  then, after every 100th record and only then (\<open>expected_pause\<close>), the progress line and
  the pause of half a second. \<open>dimensions_declared\<close> reads the number of dimensions off an
  index specification.
\<close>

definition stored :: "string \<Rightarrow> jval \<Rightarrow> jval \<Rightarrow> bool" where
  "stored vector_property object doc =
     (case getitem doc vector_property of
        Inl _ \<Rightarrow> False
      | Inr vector \<Rightarrow> setitem object vector_property vector = Inr doc)"

definition embedded :: "env \<Rightarrow> config \<Rightarrow> nat \<Rightarrow> nat \<Rightarrow> nat \<Rightarrow> jval \<Rightarrow> jval \<Rightarrow> bool" where
  "embedded env cfg dimensions first beyond object doc =
     (case getitem object ''overview'' of
        Inl _ \<Rightarrow> False
      | Inr t \<Rightarrow>
          list_ex
            (\<lambda>k. case attempt_reply env cfg t k of
                   Inl _ \<Rightarrow> False
                 | Inr v \<Rightarrow>
                     length v = dimensions \<and>
                     setitem object (cosmos_vector_property cfg) (JArr (map JNum v)) = Inr doc)
            [first..<beyond])"

definition expected_pause :: "nat \<Rightarrow> string \<Rightarrow> event list" where
  "expected_pause counter collection_name =
     (if counter mod 100 = 0 then [Progress counter collection_name, Pause (1 / 2)] else [])"

fun single_pass :: "string \<Rightarrow> handle \<Rightarrow> nat \<Rightarrow> jval list \<Rightarrow> event list \<Rightarrow> bool" where
  "single_pass vp collection counter [] evs = (evs = [])"
| "single_pass vp collection counter (object # rest) evs =
     (case getitem object ''overview'' of
        Inl _ \<Rightarrow> False
      | Inr text \<Rightarrow>
          (case evs of
             EmbeddingRequest t # attempts \<Rightarrow>
               t = text \<and>
               (case dropWhile (is_attempt text) attempts of
                  Inserted db c doc # evs' \<Rightarrow>
                    db = database_name collection \<and> c = name collection \<and> stored vp object doc \<and>
                    (let pause = expected_pause (Suc counter) (name collection)
                     in take (length pause) evs' = pause \<and>
                        single_pass vp collection (Suc counter) rest (drop (length pause) evs'))
                | _ \<Rightarrow> False)
           | _ \<Rightarrow> False))"

declare single_pass.simps(2) [simp del]

definition dimensions_declared :: "jval \<Rightarrow> exn + jval" where
  "dimensions_declared spec =
     (case getitem spec ''cosmosSearchOptions'' of
        Inl e \<Rightarrow> Inl e
      | Inr options \<Rightarrow> getitem options ''dimensions'')"

fun is_pause :: "event \<Rightarrow> bool" where
  "is_pause (Pause seconds) = True"
| "is_pause _ = False"

fun is_insertion :: "event \<Rightarrow> bool" where
  "is_insertion (Inserted db c doc) = True"
| "is_insertion _ = False"

section \<open>Sample inputs\<close>

text \<open>
  A configuration, a server that still holds the data of an earlier run, two records (and
  the first of them as it could be stored), an endpoint that is throttled for its first two
  requests and one that answers once and then fails for good.
\<close>

definition demo_config :: config where
  "demo_config = \<lparr>cosmos_database = ''lab'', cosmos_collection = ''movies'',
     cosmos_vector_property = ''vector'', cosmos_cache = ''cache'',
     embedding_deployment = Some ''embedding-model''\<rparr>"

definition movies :: handle where
  "movies = \<lparr>database_name = ''lab'', name = ''movies''\<rparr>"

definition fresh_world :: world where
  "fresh_world = \<lparr>databases = Map.empty, issued = [], api_calls = 0, draws = 0,
     insertions = 0, trace = []\<rparr>"

definition stale_world :: world where
  "stale_world = \<lparr>databases =
       [''lab'' \<mapsto> [''movies'' \<mapsto> \<lparr>documents = [JObj [(''title'', JStr ''Heat'')]], index_specs = []\<rparr>,
                    ''cache'' \<mapsto> \<lparr>documents = [JObj [(''answer'', JStr ''old'')]], index_specs = []\<rparr>,
                    ''notes'' \<mapsto> \<lparr>documents = [JNull], index_specs = []\<rparr>],
        ''other'' \<mapsto> [''kept'' \<mapsto> \<lparr>documents = [JNull], index_specs = []\<rparr>]],
     issued = [], api_calls = 0, draws = 0, insertions = 0, trace = []\<rparr>"

definition toy_story :: jval where
  "toy_story = JObj [(''title'', JStr ''Toy Story''),
                     (''overview'', JStr ''A toy spaceship crashes on a desert planet'')]"

definition toy_story_stored :: jval where
  "toy_story_stored = JObj [(''title'', JStr ''Toy Story''),
      (''overview'', JStr ''A toy spaceship crashes on a desert planet''),
      (''vector'', JArr [JNum (1 / 4), JNum (1 / 4)])]"

definition jumanji :: jval where
  "jumanji = JObj [(''title'', JStr ''Jumanji''),
                   (''overview'', JStr ''A board game comes alive'')]"

definition flaky_env :: env where
  "flaky_env = \<lparr>embeddings_create =
       (\<lambda>n input model d. if n < 2 then Inl (ApiError ''429'') else Inr [replicate d (1 / 4)]),
     random_unit = (\<lambda>n. 1 / 2),
     insert_refused = (\<lambda>n doc. None)\<rparr>"

definition dying_env :: env where
  "dying_env = \<lparr>embeddings_create =
       (\<lambda>n input model d. if n < 1 then Inr [replicate d (1 / 4)] else Inl (ApiError ''429'')),
     random_unit = (\<lambda>n. 1 / 2),
     insert_refused = (\<lambda>n doc. None)\<rparr>"

section \<open>Properties\<close>

lemma issued_create_indexes: "issued (snd (create_indexes db c specs w)) = issued w"
  by (simp add: create_indexes_def put_collection_def Let_def split: sum.splits)

lemma issued_command: "issued (snd (command db cmd w)) = issued w @ [(db, cmd)]"
  by (simp add: command_def issued_create_indexes Let_def split: jval.splits option.splits)

text \<open>
  C9. \<open>create_collection_and_vector_index\<close> ignores its \<open>embeddings_dimensions\<close> argument: two
  calls that differ in that argument only give the same result and the same world. The
  call hands at most one command to the server: none when the client does not accept the
  collection name, and otherwise the command that declares kind vector-hnsw, m 16,
  efConstruction 64, similarity COS and dimensions 1536, whatever the argument.
\<close>

theorem create_index_ignores_dimensions:
  "create_collection_and_vector_index db c vp d1 w = create_collection_and_vector_index db c vp d2 w
   \<and> issued (snd (create_collection_and_vector_index db c vp d1 w)) =
       issued w @
        (if check_collection_name c = None
         then [(db,
           JObj [(''createIndexes'', JStr c),
                 (''indexes'', JArr [
                    JObj [(''name'', JStr ''VectorSearchIndex''),
                          (''key'', JObj [(vp, JStr ''cosmosSearch'')]),
                          (''cosmosSearchOptions'', JObj [
                             (''kind'', JStr ''vector-hnsw''),
                             (''m'', JInt 16),
                             (''efConstruction'', JInt 64),
                             (''similarity'', JStr ''COS''),
                             (''dimensions'', JInt 1536)])]])])]
         else [])"
proof
  show "create_collection_and_vector_index db c vp d1 w = create_collection_and_vector_index db c vp d2 w"
    by (simp add: create_collection_and_vector_index_def)
next
  let ?cmd = "JObj [(''createIndexes'', JStr c),
               (''indexes'', JArr [
                  JObj [(''name'', JStr ''VectorSearchIndex''),
                        (''key'', JObj [(vp, JStr ''cosmosSearch'')]),
                        (''cosmosSearchOptions'', JObj [
                           (''kind'', JStr ''vector-hnsw''),
                           (''m'', JInt 16),
                           (''efConstruction'', JInt 64),
                           (''similarity'', JStr ''COS''),
                           (''dimensions'', JInt 1536)])]])]"
  show "issued (snd (create_collection_and_vector_index db c vp d1 w))
          = issued w @ (if check_collection_name c = None then [(db, ?cmd)] else [])"
  proof (cases "check_collection_name c")
    case None
    then have "snd (create_collection_and_vector_index db c vp d1 w) = snd (command db ?cmd w)"
      by (cases "command db ?cmd w")
         (simp add: create_collection_and_vector_index_def get_collection_def split: sum.splits)
    with None show ?thesis by (simp add: issued_command)
  next
    case (Some e)
    then show ?thesis
      by (simp add: create_collection_and_vector_index_def get_collection_def)
  qed
qed

theorem create_index_ignores_dimensions_witness:
  "check_collection_name ''movies'' = None
   \<and> create_collection_and_vector_index ''lab'' ''movies'' ''vector'' (JInt 3) fresh_world
       = create_collection_and_vector_index ''lab'' ''movies'' ''vector'' (JInt 1536) fresh_world
   \<and> map dimensions_declared
        (index_specs (the_collection
           (snd (create_collection_and_vector_index ''lab'' ''movies'' ''vector'' (JInt 3) fresh_world))
           ''lab'' ''movies'')) = [Inr (JInt 1536)]
   \<and> length (issued (snd (create_collection_and_vector_index ''lab'' ''movies'' ''vector'' (JInt 3)
        fresh_world))) = 1
   \<and> check_collection_name '''' \<noteq> None
   \<and> issued (snd (create_collection_and_vector_index ''lab'' '''' ''vector'' (JInt 3) fresh_world)) = []"
proof -
  have valid: "check_collection_name ''movies'' = None"
    by (simp add: check_collection_name_def)
  have invalid: "check_collection_name '''' \<noteq> None"
    by (simp add: check_collection_name_def)
  have specs: "map dimensions_declared
        (index_specs (the_collection
           (snd (create_collection_and_vector_index ''lab'' ''movies'' ''vector'' (JInt 3) fresh_world))
           ''lab'' ''movies'')) = [Inr (JInt 1536)]"
    by (simp add: create_collection_and_vector_index_def get_collection_def valid command_def
        create_indexes_def the_collection_def the_database_def put_collection_def
        empty_collection_def conflicts_def fresh_world_def dimensions_declared_def getitem_def)
  have none: "issued fresh_world = []"
    by (simp add: fresh_world_def)
  note at_movies = create_index_ignores_dimensions
    [of "''lab''" "''movies''" "''vector''" "JInt 3" fresh_world "JInt 1536"]
  note at_empty = create_index_ignores_dimensions
    [of "''lab''" "''''" "''vector''" "JInt 3" fresh_world "JInt 1536"]
  from at_movies have same:
    "create_collection_and_vector_index ''lab'' ''movies'' ''vector'' (JInt 3) fresh_world
       = create_collection_and_vector_index ''lab'' ''movies'' ''vector'' (JInt 1536) fresh_world"
    by (rule conjunct1)
  from at_movies [THEN conjunct2] valid none have one:
    "length (issued (snd (create_collection_and_vector_index ''lab'' ''movies'' ''vector'' (JInt 3)
        fresh_world))) = 1"
    by simp
  from at_empty [THEN conjunct2] invalid none have zero:
    "issued (snd (create_collection_and_vector_index ''lab'' '''' ''vector'' (JInt 3) fresh_world)) = []"
    by simp
  from valid same specs one invalid zero show ?thesis by (intro conjI)
qed

subsection \<open>The setup cell\<close>

lemma name_checks_on_samples:
  "check_database_name ''lab'' = None" "check_database_name [] \<noteq> None"
  "check_database_name ''a b'' \<noteq> None" "check_collection_name ''movies'' = None"
  "check_collection_name [] \<noteq> None" "check_collection_name ''a$b'' \<noteq> None"
  by (simp_all add: check_database_name_def check_collection_name_def invalid_database_chars_def)

lemma create_fresh:
  assumes "check_collection_name c = None" and "the_database w db c = None"
  shows "\<exists>w'. create_collection_and_vector_index db c vp d w = (Inr \<lparr>database_name = db, name = c\<rparr>, w')
     \<and> databases w' = (databases w)(db \<mapsto> (the_database w db)(c \<mapsto> \<lparr>documents = [], index_specs = [vector_search_index vp]\<rparr>))"
  using assms
  by (simp add: create_collection_and_vector_index_def get_collection_def command_def create_indexes_def
      the_collection_def the_database_def put_collection_def empty_collection_def conflicts_def
      vector_search_index_def)

lemma create_again:
  assumes "check_collection_name c = None"
    and "the_database w db c = Some \<lparr>documents = [], index_specs = [vector_search_index vp]\<rparr>"
  shows "\<exists>w'. create_collection_and_vector_index db c vp d w = (Inr \<lparr>database_name = db, name = c\<rparr>, w')
     \<and> databases w' = (databases w)(db \<mapsto> (the_database w db))"
  using assms
  by (simp add: create_collection_and_vector_index_def get_collection_def command_def create_indexes_def
      the_collection_def the_database_def put_collection_def empty_collection_def conflicts_def
      vector_search_index_def fun_upd_idem)

lemma create_invalid:
  "check_collection_name c = Some e \<Longrightarrow> create_collection_and_vector_index db c vp d w = (Inl e, w)"
  by (simp add: create_collection_and_vector_index_def get_collection_def)

lemma drop_if_listed:
  assumes "check_database_name db = None"
  shows "\<exists>w1. (if db \<in> list_database_names w then drop_database db w else (Inr (), w)) = (Inr (), w1)
     \<and> the_database w1 db = Map.empty
     \<and> (\<forall>other. other \<noteq> db \<longrightarrow> databases w1 other = databases w other)
     \<and> issued w1 = issued w"
  using assms
  by (auto simp: the_database_def list_database_names_def drop_database_def get_database_def
      split: option.splits)

lemma database_setup_valid:
  assumes db: "check_database_name (cosmos_database cfg) = None"
    and c: "check_collection_name (cosmos_collection cfg) = None"
    and k: "check_collection_name (cosmos_cache cfg) = None"
  shows "\<exists>w'. database_setup cfg w
        = (Inr (\<lparr>database_name = cosmos_database cfg, name = cosmos_collection cfg\<rparr>,
                \<lparr>database_name = cosmos_database cfg, name = cosmos_cache cfg\<rparr>), w')
     \<and> databases w' (cosmos_database cfg)
        = Some [cosmos_collection cfg \<mapsto>
                  \<lparr>documents = [], index_specs = [vector_search_index (cosmos_vector_property cfg)]\<rparr>,
                cosmos_cache cfg \<mapsto>
                  \<lparr>documents = [], index_specs = [vector_search_index (cosmos_vector_property cfg)]\<rparr>]
     \<and> (\<forall>other. other \<noteq> cosmos_database cfg \<longrightarrow> databases w' other = databases w other)"
proof -
  let ?db = "cosmos_database cfg" and ?c = "cosmos_collection cfg" and ?k = "cosmos_cache cfg"
  let ?vp = "cosmos_vector_property cfg"
  let ?fresh = "\<lparr>documents = [], index_specs = [vector_search_index ?vp]\<rparr>"
  from drop_if_listed [OF db, of w] obtain w1 where
    dropped: "(if ?db \<in> list_database_names w then drop_database ?db w else (Inr (), w)) = (Inr (), w1)"
    and e1: "the_database w1 ?db = Map.empty"
    and f1: "\<forall>other. other \<noteq> ?db \<longrightarrow> databases w1 other = databases w other"
    by blast
  from e1 have "the_database w1 ?db ?c = None" by simp
  from create_fresh [OF c this, of ?vp "JInt 1536"] e1
  obtain w2 where c2: "create_collection_and_vector_index ?db ?c ?vp (JInt 1536) w1
        = (Inr \<lparr>database_name = ?db, name = ?c\<rparr>, w2)"
    and d2: "databases w2 = (databases w1)(?db \<mapsto> [?c \<mapsto> ?fresh])"
    by auto
  have t2: "the_database w2 ?db = [?c \<mapsto> ?fresh]"
    by (simp add: the_database_def d2)
  have "\<exists>w3. create_collection_and_vector_index ?db ?k ?vp (JInt 1536) w2
        = (Inr \<lparr>database_name = ?db, name = ?k\<rparr>, w3)
      \<and> databases w3 = (databases w1)(?db \<mapsto> [?c \<mapsto> ?fresh, ?k \<mapsto> ?fresh])"
  proof (cases "?k = ?c")
    case True
    then have "the_database w2 ?db ?k = Some ?fresh" by (simp add: t2)
    from create_again [OF k this, of "JInt 1536"] show ?thesis
      using True by (auto simp: t2 d2)
  next
    case False
    then have "the_database w2 ?db ?k = None" by (simp add: t2)
    from create_fresh [OF k this, of ?vp "JInt 1536"] show ?thesis
      by (auto simp: t2 d2)
  qed
  then obtain w3 where c3: "create_collection_and_vector_index ?db ?k ?vp (JInt 1536) w2
        = (Inr \<lparr>database_name = ?db, name = ?k\<rparr>, w3)"
    and d3: "databases w3 = (databases w1)(?db \<mapsto> [?c \<mapsto> ?fresh, ?k \<mapsto> ?fresh])"
    by auto
  have run: "database_setup cfg w
      = (Inr (\<lparr>database_name = ?db, name = ?c\<rparr>, \<lparr>database_name = ?db, name = ?k\<rparr>), w3)"
    by (simp add: database_setup_def dropped get_database_def db c2 c3)
  have frame: "\<forall>other. other \<noteq> ?db \<longrightarrow> databases w3 other = databases w other"
    using f1 by (simp add: d3)
  have here: "databases w3 ?db = Some [?c \<mapsto> ?fresh, ?k \<mapsto> ?fresh]"
    by (simp add: d3)
  from run here frame show ?thesis by (intro exI [of _ w3] conjI)
qed

text \<open>
  C8. Take names that the client accepts. Whatever the server holds, the setup cell then
  succeeds and leaves the configured database with the content collection and the cache
  collection only, both without any document: a database of that name that existed before
  is dropped as a whole, with every record and cache entry in it. Other databases are not
  touched.
\<close>

theorem database_setup_starts_empty:
  assumes "check_database_name (cosmos_database cfg) = None"
    and "check_collection_name (cosmos_collection cfg) = None"
    and "check_collection_name (cosmos_cache cfg) = None"
  shows "\<exists>collection cache w'. database_setup cfg w = (Inr (collection, cache), w')
     \<and> (\<exists>d. databases w' (cosmos_database cfg) = Some d
            \<and> dom d = {cosmos_collection cfg, cosmos_cache cfg}
            \<and> (\<forall>c co. d c = Some co \<longrightarrow> documents co = []))
     \<and> (\<forall>other. other \<noteq> cosmos_database cfg \<longrightarrow> databases w' other = databases w other)"
proof -
  let ?c = "cosmos_collection cfg" and ?k = "cosmos_cache cfg"
  let ?fresh = "\<lparr>documents = [], index_specs = [vector_search_index (cosmos_vector_property cfg)]\<rparr>"
  from database_setup_valid [OF assms, of w] obtain collection cache w' where
    run: "database_setup cfg w = (Inr (collection, cache), w')"
    and here: "databases w' (cosmos_database cfg) = Some [?c \<mapsto> ?fresh, ?k \<mapsto> ?fresh]"
    and frame: "\<forall>other. other \<noteq> cosmos_database cfg \<longrightarrow> databases w' other = databases w other"
    by blast
  have "dom [?c \<mapsto> ?fresh, ?k \<mapsto> ?fresh] = {?c, ?k}" by auto
  moreover have "\<forall>c co. [?c \<mapsto> ?fresh, ?k \<mapsto> ?fresh] c = Some co \<longrightarrow> documents co = []"
    by (auto split: if_splits)
  ultimately have "\<exists>d. databases w' (cosmos_database cfg) = Some d
            \<and> dom d = {?c, ?k} \<and> (\<forall>c co. d c = Some co \<longrightarrow> documents co = [])"
    using here by blast
  with run frame show ?thesis by (intro exI [of _ collection] exI [of _ cache] exI [of _ w'] conjI)
qed

theorem database_setup_starts_empty_witness:
  "cosmos_database demo_config \<in> list_database_names stale_world
   \<and> documents (the_collection stale_world ''lab'' ''movies'') = [JObj [(''title'', JStr ''Heat'')]]
   \<and> (\<exists>collection cache w'. database_setup demo_config stale_world = (Inr (collection, cache), w')
         \<and> documents (the_collection w' ''lab'' ''movies'') = []
         \<and> documents (the_collection w' ''lab'' ''cache'') = []
         \<and> the_database w' ''lab'' ''notes'' = None
         \<and> databases w' ''other'' = databases stale_world ''other'')"
proof -
  have valid: "check_database_name (cosmos_database demo_config) = None"
    "check_collection_name (cosmos_collection demo_config) = None"
    "check_collection_name (cosmos_cache demo_config) = None"
    by (simp_all add: demo_config_def check_database_name_def check_collection_name_def
        invalid_database_chars_def)
  from database_setup_starts_empty [OF valid, of stale_world]
  obtain collection cache w' d where
    run: "database_setup demo_config stale_world = (Inr (collection, cache), w')"
    and d: "databases w' ''lab'' = Some d" "dom d = {''movies'', ''cache''}"
       "\<forall>c co. d c = Some co \<longrightarrow> documents co = []"
    and other: "databases w' ''other'' = databases stale_world ''other''"
    by (auto simp: demo_config_def)
  from d(2) have m: "''movies'' \<in> dom d" and k: "''cache'' \<in> dom d" and n: "''notes'' \<notin> dom d"
    by simp_all
  from m obtain co1 where co1: "d ''movies'' = Some co1" by (auto simp only: dom_def mem_Collect_eq)
  from k obtain co2 where co2: "d ''cache'' = Some co2" by (auto simp only: dom_def mem_Collect_eq)
  from n have none: "d ''notes'' = None" by (simp only: domIff not_not)
  from d(3) co1 have e1: "documents co1 = []" by blast
  from d(3) co2 have e2: "documents co2 = []" by blast
  have "documents (the_collection w' ''lab'' ''movies'') = []"
    "documents (the_collection w' ''lab'' ''cache'') = []"
    "the_database w' ''lab'' ''notes'' = None"
    by (simp_all add: the_collection_def the_database_def d(1) co1 co2 none e1 e2)
  moreover have "cosmos_database demo_config \<in> list_database_names stale_world"
    "documents (the_collection stale_world ''lab'' ''movies'') = [JObj [(''title'', JStr ''Heat'')]]"
    by (simp_all add: demo_config_def stale_world_def list_database_names_def the_collection_def the_database_def)
  ultimately show ?thesis using run other by simp
qed

text \<open>
  With a name that the client does not accept the cell raises \<^verbatim>\<open>InvalidName\<close>: for the
  database name before anything is dropped or created, for the content collection's name
  after the drop, and for the cache collection's name after the content collection has been
  created.
\<close>

lemma database_setup_invalid_database_name:
  "check_database_name (cosmos_database cfg) = Some e \<Longrightarrow> database_setup cfg w = (Inl e, w)"
  by (simp add: database_setup_def drop_database_def get_database_def)

lemma database_setup_invalid_collection_name:
  assumes db: "check_database_name (cosmos_database cfg) = None"
    and c: "check_collection_name (cosmos_collection cfg) = Some e"
  shows "\<exists>w'. database_setup cfg w = (Inl e, w') \<and> the_database w' (cosmos_database cfg) = Map.empty"
proof -
  from drop_if_listed [OF db, of w] obtain w1 where
    "(if cosmos_database cfg \<in> list_database_names w then drop_database (cosmos_database cfg) w
      else (Inr (), w)) = (Inr (), w1)"
    and "the_database w1 (cosmos_database cfg) = Map.empty"
    by blast
  then show ?thesis
    by (simp add: database_setup_def get_database_def db create_invalid [OF c])
qed

lemma database_setup_invalid_cache_name:
  assumes db: "check_database_name (cosmos_database cfg) = None"
    and c: "check_collection_name (cosmos_collection cfg) = None"
    and k: "check_collection_name (cosmos_cache cfg) = Some e"
  shows "\<exists>w'. database_setup cfg w = (Inl e, w')
     \<and> databases w' (cosmos_database cfg)
        = Some [cosmos_collection cfg \<mapsto>
                  \<lparr>documents = [], index_specs = [vector_search_index (cosmos_vector_property cfg)]\<rparr>]"
proof -
  from drop_if_listed [OF db, of w] obtain w1 where
    dropped: "(if cosmos_database cfg \<in> list_database_names w then drop_database (cosmos_database cfg) w
      else (Inr (), w)) = (Inr (), w1)"
    and e1: "the_database w1 (cosmos_database cfg) = Map.empty"
    by blast
  from e1 have "the_database w1 (cosmos_database cfg) (cosmos_collection cfg) = None" by simp
  from create_fresh [OF c this, of "cosmos_vector_property cfg" "JInt 1536"] e1
  obtain w2 where "create_collection_and_vector_index (cosmos_database cfg) (cosmos_collection cfg)
        (cosmos_vector_property cfg) (JInt 1536) w1
        = (Inr \<lparr>database_name = cosmos_database cfg, name = cosmos_collection cfg\<rparr>, w2)"
    and "databases w2 = (databases w1)(cosmos_database cfg \<mapsto> [cosmos_collection cfg \<mapsto>
           \<lparr>documents = [], index_specs = [vector_search_index (cosmos_vector_property cfg)]\<rparr>])"
    by auto
  with dropped show ?thesis
    by (simp add: database_setup_def get_database_def db create_invalid [OF k])
qed

text \<open>
  Whether the cell returns or raises on a collection name, no document is left in the
  content collection nor in the cache collection of the configured database.
\<close>

lemma database_setup_leaves_no_document:
  assumes db: "check_database_name (cosmos_database cfg) = None"
  shows "documents (the_collection (snd (database_setup cfg w))
           (cosmos_database cfg) (cosmos_collection cfg)) = []
     \<and> documents (the_collection (snd (database_setup cfg w))
           (cosmos_database cfg) (cosmos_cache cfg)) = []"
proof (cases "check_collection_name (cosmos_collection cfg)")
  case (Some e)
  from database_setup_invalid_collection_name [OF db this, of w] show ?thesis
    by (auto simp: the_collection_def empty_collection_def)
next
  case None
  note c = this
  show ?thesis
  proof (cases "check_collection_name (cosmos_cache cfg)")
    case (Some e)
    with c have "cosmos_cache cfg \<noteq> cosmos_collection cfg" by auto
    with database_setup_invalid_cache_name [OF db c Some, of w] show ?thesis
      by (auto simp: the_collection_def the_database_def empty_collection_def)
  next
    case None
    from database_setup_valid [OF db c None, of w] show ?thesis
      by (auto simp: the_collection_def the_database_def)
  qed
qed

lemma database_setup_Inr:
  assumes "database_setup cfg w0 = (Inr (collection, cache), w)"
  shows "collection = \<lparr>database_name = cosmos_database cfg, name = cosmos_collection cfg\<rparr>
     \<and> the_collection w (cosmos_database cfg) (cosmos_collection cfg)
        = \<lparr>documents = [], index_specs = [vector_search_index (cosmos_vector_property cfg)]\<rparr>"
proof -
  have db: "check_database_name (cosmos_database cfg) = None"
  proof (cases "check_database_name (cosmos_database cfg)")
    case (Some e)
    from database_setup_invalid_database_name [OF this, of w0] assms show ?thesis by simp
  qed
  have c: "check_collection_name (cosmos_collection cfg) = None"
  proof (cases "check_collection_name (cosmos_collection cfg)")
    case (Some e)
    from database_setup_invalid_collection_name [OF db this, of w0] assms show ?thesis by auto
  qed
  have k: "check_collection_name (cosmos_cache cfg) = None"
  proof (cases "check_collection_name (cosmos_cache cfg)")
    case (Some e)
    from database_setup_invalid_cache_name [OF db c this, of w0] assms show ?thesis by auto
  qed
  from database_setup_valid [OF db c k, of w0] assms show ?thesis
    by (auto simp: the_collection_def the_database_def)
qed

subsection \<open>The retry loop\<close>

lemma uniform_between:
  assumes "0 \<le> u" "u \<le> 1" "a \<le> b"
  shows "a \<le> uniform a b u \<and> uniform a b u \<le> b"
proof -
  have "0 \<le> (b - a) * u" using assms by simp
  moreover have "(b - a) * u \<le> (b - a) * 1"
    using assms by (intro mult_left_mono) simp_all
  ultimately show ?thesis by (simp add: uniform_def)
qed

lemma wait_exponential_between:
  "lo \<le> wait_exponential lo hi n \<and> wait_exponential lo hi n \<le> max (max 0 lo) hi"
proof
  show "lo \<le> wait_exponential lo hi n"
    by (simp add: wait_exponential_def le_max_iff_disj)
  show "wait_exponential lo hi n \<le> max (max 0 lo) hi"
    unfolding wait_exponential_def by (rule max.mono) simp_all
qed

lemma wait_between:
  assumes "0 \<le> u" "u \<le> 1"
  shows "lo \<le> uniform lo (wait_exponential lo hi n) u
       \<and> uniform lo (wait_exponential lo hi n) u \<le> max (max 0 lo) hi"
  using uniform_between [OF assms, of lo "wait_exponential lo hi n"]
    wait_exponential_between [of lo hi n] by linarith

lemma retry_call_body:
  "retry_call env m lo hi (generate_embeddings_body env cfg text) a w =
     (case attempt_reply env cfg text (api_calls w) of
        Inr v \<Rightarrow> (Inr v, requested text w)
      | Inl e \<Rightarrow>
          if m \<le> a then (Inl (RetryError e), requested text w)
          else retry_call env m lo hi (generate_embeddings_body env cfg text) (Suc a)
                 (waited env lo hi a text w))"
  by (subst retry_call.simps)
     (simp add: generate_embeddings_body_def attempt_reply_def stop_after_attempt_def
        wait_random_exponential_def nap_def requested_def waited_def split: sum.splits)

lemma retry_call_body_induct [consumes 0, case_names attempt]:
  assumes step: "\<And>a w. (\<And>e. attempt_reply env cfg txt (api_calls w) = Inl e \<Longrightarrow> \<not> m \<le> a
                      \<Longrightarrow> P (Suc a) (waited env lo hi a txt w)) \<Longrightarrow> P a w"
  shows "P a w"
proof (induction "m - a" arbitrary: a w)
  case (0 a w)
  show ?case by (rule step) (use 0 in simp)
next
  case (Suc n a w)
  from Suc.hyps(2) have "n = m - Suc a" by simp
  then have later: "P (Suc a) (waited env lo hi a txt w)" by (rule Suc.hyps(1))
  show ?case by (rule step) (rule later)
qed

lemma retry_call_frame:
  "databases (snd (retry_call env m lo hi (generate_embeddings_body env cfg text) a w)) = databases w
   \<and> insertions (snd (retry_call env m lo hi (generate_embeddings_body env cfg text) a w)) = insertions w
   \<and> issued (snd (retry_call env m lo hi (generate_embeddings_body env cfg text) a w)) = issued w"
proof (induction a w rule: retry_call_body_induct [of env cfg "text" m _ lo hi])
  case (attempt a w)
  show ?case
  proof (cases "attempt_reply env cfg text (api_calls w)")
    case (Inr v)
    then show ?thesis by (simp add: retry_call_body requested_def)
  next
    case (Inl e)
    show ?thesis
    proof (cases "m \<le> a")
      case True
      with Inl show ?thesis by (simp add: retry_call_body requested_def)
    next
      case False
      from attempt [OF Inl False] Inl False show ?thesis
        by (simp add: retry_call_body [of env m lo hi cfg "text" a w] waited_def)
    qed
  qed
qed


lemma retry_call_trace:
  "\<exists>evs. trace (snd (retry_call env m lo hi (generate_embeddings_body env cfg text) a w))
            = trace w @ EmbeddingRequest text # evs
         \<and> list_all (is_attempt text) evs"
proof (induction a w rule: retry_call_body_induct [of env cfg "text" m _ lo hi])
  case (attempt a w)
  show ?case
  proof (cases "attempt_reply env cfg text (api_calls w)")
    case (Inr v)
    then show ?thesis by (simp add: retry_call_body requested_def)
  next
    case (Inl e)
    show ?thesis
    proof (cases "m \<le> a")
      case True
      with Inl show ?thesis by (simp add: retry_call_body requested_def)
    next
      case False
      from attempt [OF Inl False] obtain evs where
        "trace (snd (retry_call env m lo hi (generate_embeddings_body env cfg text) (Suc a)
                  (waited env lo hi a text w)))
           = trace (waited env lo hi a text w) @ EmbeddingRequest text # evs"
        and "list_all (is_attempt text) evs"
        by blast
      with Inl False show ?thesis
        by (simp add: retry_call_body [of env m lo hi cfg "text" a w] waited_def)
    qed
  qed
qed

lemma retry_call_waits:
  assumes unit: "\<forall>n. 0 \<le> random_unit env n \<and> random_unit env n \<le> 1"
  shows "\<forall>d. RetryWait d \<in> set (trace (snd (retry_call env m lo hi (generate_embeddings_body env cfg text) a w)))
           \<longrightarrow> RetryWait d \<in> set (trace w) \<or> (lo \<le> d \<and> d \<le> max (max 0 lo) hi)"
proof (induction a w rule: retry_call_body_induct [of env cfg "text" m _ lo hi])
  case (attempt a w)
  show ?case
  proof (cases "attempt_reply env cfg text (api_calls w)")
    case (Inr v)
    then show ?thesis by (simp add: retry_call_body requested_def)
  next
    case (Inl e)
    show ?thesis
    proof (cases "m \<le> a")
      case True
      with Inl show ?thesis by (simp add: retry_call_body requested_def)
    next
      case False
      have now: "lo \<le> uniform lo (wait_exponential lo hi a) (random_unit env (draws w))
          \<and> uniform lo (wait_exponential lo hi a) (random_unit env (draws w)) \<le> max (max 0 lo) hi"
        using unit by (intro wait_between) simp_all
      have "\<forall>d. RetryWait d \<in> set (trace (waited env lo hi a text w))
              \<longrightarrow> RetryWait d \<in> set (trace w) \<or> (lo \<le> d \<and> d \<le> max (max 0 lo) hi)"
        using now by (auto simp: waited_def)
      with attempt [OF Inl False] have
        "\<forall>d. RetryWait d \<in> set (trace (snd (retry_call env m lo hi (generate_embeddings_body env cfg text)
                  (Suc a) (waited env lo hi a text w))))
              \<longrightarrow> RetryWait d \<in> set (trace w) \<or> (lo \<le> d \<and> d \<le> max (max 0 lo) hi)"
        by blast
      with Inl False show ?thesis
        by (simp add: retry_call_body [of env m lo hi cfg "text" a w])
    qed
  qed
qed

lemma retry_call_calls:
  "api_calls w < api_calls (snd (retry_call env m lo hi (generate_embeddings_body env cfg text) a w))
   \<and> api_calls (snd (retry_call env m lo hi (generate_embeddings_body env cfg text) a w))
       \<le> api_calls w + (m - a) + 1"
proof (induction a w rule: retry_call_body_induct [of env cfg "text" m _ lo hi])
  case (attempt a w)
  show ?case
  proof (cases "attempt_reply env cfg text (api_calls w)")
    case (Inr v)
    then show ?thesis by (simp add: retry_call_body requested_def)
  next
    case (Inl e)
    show ?thesis
    proof (cases "m \<le> a")
      case True
      with Inl show ?thesis by (simp add: retry_call_body requested_def)
    next
      case False
      have "api_calls (waited env lo hi a text w) = Suc (api_calls w)"
        by (simp add: waited_def)
      with attempt [OF Inl False] False have
        "api_calls w < api_calls (snd (retry_call env m lo hi (generate_embeddings_body env cfg text)
                  (Suc a) (waited env lo hi a text w)))
         \<and> api_calls (snd (retry_call env m lo hi (generate_embeddings_body env cfg text)
                  (Suc a) (waited env lo hi a text w))) \<le> api_calls w + (m - a) + 1"
        by linarith
      with Inl False show ?thesis
        by (simp add: retry_call_body [of env m lo hi cfg "text" a w])
    qed
  qed
qed

lemma retry_call_result:
  "fst (retry_call env m lo hi (generate_embeddings_body env cfg text) a w) = Inr v
   \<Longrightarrow> \<exists>n. attempt_reply env cfg text n = Inr v"
proof (induction a w rule: retry_call_body_induct [of env cfg "text" m _ lo hi])
  case (attempt a w)
  show ?case
  proof (cases "attempt_reply env cfg text (api_calls w)")
    case (Inr v')
    with attempt.prems show ?thesis by (auto simp: retry_call_body)
  next
    case (Inl e)
    show ?thesis
    proof (cases "m \<le> a")
      case True
      with Inl attempt.prems show ?thesis by (simp add: retry_call_body)
    next
      case False
      with Inl attempt.prems have
        "fst (retry_call env m lo hi (generate_embeddings_body env cfg text) (Suc a)
                  (waited env lo hi a text w)) = Inr v"
        by (simp add: retry_call_body [of env m lo hi cfg "text" a w])
      then show ?thesis by (rule attempt.IH [OF Inl False])
    qed
  qed
qed

lemma retry_call_last_reply:
  "fst (retry_call env m lo hi (generate_embeddings_body env cfg text) a w) = Inr v
   \<Longrightarrow> attempt_reply env cfg text
         (api_calls (snd (retry_call env m lo hi (generate_embeddings_body env cfg text) a w)) - 1) = Inr v
       \<and> api_calls w < api_calls (snd (retry_call env m lo hi (generate_embeddings_body env cfg text) a w))"
proof (induction a w rule: retry_call_body_induct [of env cfg "text" m _ lo hi])
  case (attempt a w)
  show ?case
  proof (cases "attempt_reply env cfg text (api_calls w)")
    case (Inr v')
    with attempt.prems show ?thesis by (auto simp: retry_call_body requested_def)
  next
    case (Inl e)
    show ?thesis
    proof (cases "m \<le> a")
      case True
      with Inl attempt.prems show ?thesis by (simp add: retry_call_body)
    next
      case False
      with Inl attempt.prems have
        "fst (retry_call env m lo hi (generate_embeddings_body env cfg text) (Suc a)
                  (waited env lo hi a text w)) = Inr v"
        by (simp add: retry_call_body [of env m lo hi cfg "text" a w])
      from attempt.IH [OF Inl False this] have
        "attempt_reply env cfg text
           (api_calls (snd (retry_call env m lo hi (generate_embeddings_body env cfg text) (Suc a)
                  (waited env lo hi a text w))) - 1) = Inr v
         \<and> Suc (api_calls w) < api_calls (snd (retry_call env m lo hi (generate_embeddings_body env cfg text)
                  (Suc a) (waited env lo hi a text w)))"
        by (simp add: waited_def)
      with Inl False show ?thesis
        by (simp add: retry_call_body [of env m lo hi cfg "text" a w])
    qed
  qed
qed

lemma retry_call_error:
  "fst (retry_call env m lo hi (generate_embeddings_body env cfg text) a w) = Inl x
   \<Longrightarrow> \<exists>e. x = RetryError e"
proof (induction a w rule: retry_call_body_induct [of env cfg "text" m _ lo hi])
  case (attempt a w)
  show ?case
  proof (cases "attempt_reply env cfg text (api_calls w)")
    case (Inr v')
    with attempt.prems show ?thesis by (auto simp: retry_call_body)
  next
    case (Inl e)
    show ?thesis
    proof (cases "m \<le> a")
      case True
      with Inl attempt.prems show ?thesis by (auto simp: retry_call_body)
    next
      case False
      with Inl attempt.prems have
        "fst (retry_call env m lo hi (generate_embeddings_body env cfg text) (Suc a)
                  (waited env lo hi a text w)) = Inl x"
        by (simp add: retry_call_body [of env m lo hi cfg "text" a w])
      then show ?thesis by (rule attempt.IH [OF Inl False])
    qed
  qed
qed


lemma retry_call_succeeds:
  assumes "a + k \<le> m"
    and "\<forall>j<k. isl (attempt_reply env cfg text (api_calls w + j))"
    and "attempt_reply env cfg text (api_calls w + k) = Inr v"
  shows "fst (retry_call env m lo hi (generate_embeddings_body env cfg text) a w) = Inr v
     \<and> api_calls (snd (retry_call env m lo hi (generate_embeddings_body env cfg text) a w))
         = api_calls w + k + 1"
  using assms
proof (induction k arbitrary: a w)
  case 0
  then show ?case by (simp add: retry_call_body requested_def)
next
  case (Suc k a w)
  from Suc.prems(2) have "isl (attempt_reply env cfg text (api_calls w + 0))" by blast
  then obtain e where e: "attempt_reply env cfg text (api_calls w) = Inl e"
    by (cases "attempt_reply env cfg text (api_calls w)") simp_all
  from Suc.prems(1) have more: "\<not> m \<le> a" by simp
  have calls: "api_calls (waited env lo hi a text w) = Suc (api_calls w)"
    by (simp add: waited_def)
  have "Suc a + k \<le> m" using Suc.prems(1) by simp
  moreover have "\<forall>j<k. isl (attempt_reply env cfg text (api_calls (waited env lo hi a text w) + j))"
  proof (intro allI impI)
    fix j assume "j < k"
    then have "Suc j < Suc k" by simp
    with Suc.prems(2) have "isl (attempt_reply env cfg text (api_calls w + Suc j))" by blast
    then show "isl (attempt_reply env cfg text (api_calls (waited env lo hi a text w) + j))"
      by (simp add: calls)
  qed
  moreover have "attempt_reply env cfg text (api_calls (waited env lo hi a text w) + k) = Inr v"
    using Suc.prems(3) by (simp add: calls)
  ultimately have
    "fst (retry_call env m lo hi (generate_embeddings_body env cfg text) (Suc a)
            (waited env lo hi a text w)) = Inr v
     \<and> api_calls (snd (retry_call env m lo hi (generate_embeddings_body env cfg text) (Suc a)
            (waited env lo hi a text w)))
         = api_calls (waited env lo hi a text w) + k + 1"
    by (rule Suc.IH)
  with e more show ?case
    by (simp add: retry_call_body [of env m lo hi cfg "text" a w] calls)
qed

lemma retry_call_exhausted:
  "\<forall>j\<le>m - a. isl (attempt_reply env cfg text (api_calls w + j))
   \<Longrightarrow> \<exists>e. fst (retry_call env m lo hi (generate_embeddings_body env cfg text) a w) = Inl (RetryError e)
         \<and> api_calls (snd (retry_call env m lo hi (generate_embeddings_body env cfg text) a w))
             = api_calls w + (m - a) + 1"
proof (induction a w rule: retry_call_body_induct [of env cfg "text" m _ lo hi])
  case (attempt a w)
  from attempt.prems have "isl (attempt_reply env cfg text (api_calls w + 0))" by blast
  then obtain e where e: "attempt_reply env cfg text (api_calls w) = Inl e"
    by (cases "attempt_reply env cfg text (api_calls w)") simp_all
  show ?case
  proof (cases "m \<le> a")
    case True
    with e show ?thesis by (simp add: retry_call_body requested_def)
  next
    case False
    have calls: "api_calls (waited env lo hi a text w) = Suc (api_calls w)"
      by (simp add: waited_def)
    have "\<forall>j\<le>m - Suc a. isl (attempt_reply env cfg text (api_calls (waited env lo hi a text w) + j))"
    proof (intro allI impI)
      fix j assume "j \<le> m - Suc a"
      with False have "Suc j \<le> m - a" by simp
      with attempt.prems have "isl (attempt_reply env cfg text (api_calls w + Suc j))" by blast
      then show "isl (attempt_reply env cfg text (api_calls (waited env lo hi a text w) + j))"
        by (simp add: calls)
    qed
    from attempt.IH [OF e False this] obtain e' where
      "fst (retry_call env m lo hi (generate_embeddings_body env cfg text) (Suc a)
              (waited env lo hi a text w)) = Inl (RetryError e')"
      "api_calls (snd (retry_call env m lo hi (generate_embeddings_body env cfg text) (Suc a)
              (waited env lo hi a text w)))
         = api_calls (waited env lo hi a text w) + (m - Suc a) + 1"
      by blast
    with e False show ?thesis
      by (simp add: retry_call_body [of env m lo hi cfg "text" a w] calls)
  qed
qed


subsection \<open>The ingestion loop\<close>

lemma single_pass_step:
  assumes "getitem object ''overview'' = Inr text"
    and "list_all (is_attempt text) attempts"
    and "stored vp object doc"
    and "single_pass vp collection (Suc counter) rest evs"
  shows "single_pass vp collection counter (object # rest)
           (EmbeddingRequest text # attempts @ Inserted (database_name collection) (name collection) doc
              # expected_pause (Suc counter) (name collection) @ evs)"
proof -
  have "dropWhile (is_attempt text) (attempts @ Inserted (database_name collection) (name collection) doc # xs)
        = Inserted (database_name collection) (name collection) doc # xs" for xs
    using assms(2) by (simp add: dropWhile_append3 list_all_iff)
  with assms show ?thesis
    by (simp add: single_pass.simps(2) Let_def)
qed

lemma generate_embeddings_frame:
  "databases (snd (generate_embeddings env cfg text w)) = databases w
   \<and> insertions (snd (generate_embeddings env cfg text w)) = insertions w
   \<and> issued (snd (generate_embeddings env cfg text w)) = issued w"
  unfolding generate_embeddings_def by (rule retry_call_frame)

lemma generate_embeddings_trace:
  "\<exists>evs. trace (snd (generate_embeddings env cfg text w)) = trace w @ EmbeddingRequest text # evs
         \<and> list_all (is_attempt text) evs"
  unfolding generate_embeddings_def by (rule retry_call_trace)

lemma generate_embeddings_result:
  "fst (generate_embeddings env cfg text w) = Inr v \<Longrightarrow> \<exists>n. attempt_reply env cfg text n = Inr v"
  unfolding generate_embeddings_def by (rule retry_call_result)

lemma the_collection_put [simp]:
  "the_collection (put_collection db c co w) db c = co"
  by (simp add: the_collection_def the_database_def put_collection_def)

lemma insert_one_Inr:
  assumes "insert_one env collection doc w = (Inr u, w')"
  shows "trace w' = trace w @ [Inserted (database_name collection) (name collection) doc]
     \<and> documents (the_collection w' (database_name collection) (name collection))
         = documents (the_collection w (database_name collection) (name collection)) @ [doc]"
  using assms
  by (auto simp: insert_one_def Let_def the_collection_def the_database_def put_collection_def
      split: jval.splits option.splits)

lemma ingest_Cons_Inr:
  assumes "ingest env cfg collection (object # rest) counter w = (Inr n, w')"
  obtains kvs t v w1 u w2 where
    "object = JObj kvs" and "map_of kvs ''overview'' = Some t"
    and "generate_embeddings env cfg t w = (Inr v, w1)"
    and "insert_one env collection
           (JObj (AList.update (cosmos_vector_property cfg) (JArr (map JNum v)) kvs)) w1 = (Inr u, w2)"
    and "ingest env cfg collection rest (counter + 1)
           (if (counter + 1) mod 100 = 0
            then sleep (1 / 2) (print_progress (counter + 1) (name collection) w2) else w2) = (Inr n, w')"
  using assms
  by (auto simp: getitem_def setitem_def split: sum.splits prod.splits jval.splits option.splits)


lemma the_collection_same:
  "databases w1 = databases w \<Longrightarrow> the_collection w1 db c = the_collection w db c"
  by (simp add: the_collection_def the_database_def)

lemma stored_update:
  "stored vp (JObj kvs) (JObj (AList.update vp vector kvs))"
  by (simp add: stored_def getitem_def setitem_def update_conv')

lemma pause_effect:
  "trace (if Suc counter mod 100 = 0 then sleep (1 / 2) (print_progress (Suc counter) c w) else w)
     = trace w @ expected_pause (Suc counter) c
   \<and> databases (if Suc counter mod 100 = 0 then sleep (1 / 2) (print_progress (Suc counter) c w) else w)
     = databases w"
  by (simp add: sleep_def print_progress_def expected_pause_def)

lemma ingest_shape:
  assumes "ingest env cfg collection stream counter w = (Inr n, w')"
  shows "n = counter + length stream
     \<and> (\<exists>evs docs. trace w' = trace w @ evs
          \<and> single_pass (cosmos_vector_property cfg) collection counter stream evs
          \<and> documents (the_collection w' (database_name collection) (name collection))
              = documents (the_collection w (database_name collection) (name collection)) @ docs
          \<and> list_all2 (\<lambda>object doc. \<exists>kvs t v k. object = JObj kvs \<and> map_of kvs ''overview'' = Some t
                \<and> attempt_reply env cfg t k = Inr v
                \<and> doc = JObj (AList.update (cosmos_vector_property cfg) (JArr (map JNum v)) kvs))
              stream docs)"
  using assms
proof (induction stream arbitrary: counter w)
  case Nil
  then show ?case by simp
next
  case (Cons object rest)
  let ?vp = "cosmos_vector_property cfg"
  let ?db = "database_name collection" and ?c = "name collection"
  from Cons.prems obtain kvs t v w1 u w2 where
    object: "object = JObj kvs" and overview: "map_of kvs ''overview'' = Some t"
    and gen: "generate_embeddings env cfg t w = (Inr v, w1)"
    and ins: "insert_one env collection (JObj (AList.update ?vp (JArr (map JNum v)) kvs)) w1 = (Inr u, w2)"
    and rest: "ingest env cfg collection rest (counter + 1)
           (if (counter + 1) mod 100 = 0
            then sleep (1 / 2) (print_progress (counter + 1) ?c w2) else w2) = (Inr n, w')"
    by (rule ingest_Cons_Inr)
  let ?doc = "JObj (AList.update ?vp (JArr (map JNum v)) kvs)"
  let ?pause = "expected_pause (Suc counter) ?c"
  let ?w3 = "if Suc counter mod 100 = 0 then sleep (1 / 2) (print_progress (Suc counter) ?c w2) else w2"
  from rest have rest': "ingest env cfg collection rest (Suc counter) ?w3 = (Inr n, w')"
    by (simp only: Suc_eq_plus1)
  from generate_embeddings_trace [of env cfg t w] gen obtain attempts where
    t1: "trace w1 = trace w @ EmbeddingRequest t # attempts" and att: "list_all (is_attempt t) attempts"
    by auto
  from generate_embeddings_frame [of env cfg t w] gen have d1: "databases w1 = databases w" by simp
  from generate_embeddings_result [of env cfg t w v] gen obtain k where
    reply: "attempt_reply env cfg t k = Inr v" by auto
  from insert_one_Inr [OF ins] have t2: "trace w2 = trace w1 @ [Inserted ?db ?c ?doc]"
    and d2: "documents (the_collection w2 ?db ?c) = documents (the_collection w1 ?db ?c) @ [?doc]"
    by simp_all
  from pause_effect [of counter ?c w2] have t3: "trace ?w3 = trace w2 @ ?pause"
    and d3: "databases ?w3 = databases w2" by simp_all
  from Cons.IH [OF rest'] obtain evs docs where
    n: "n = Suc counter + length rest"
    and t4: "trace w' = trace ?w3 @ evs"
    and pass: "single_pass ?vp collection (Suc counter) rest evs"
    and d4: "documents (the_collection w' ?db ?c) = documents (the_collection ?w3 ?db ?c) @ docs"
    and each: "list_all2 (\<lambda>object doc. \<exists>kvs t v k. object = JObj kvs \<and> map_of kvs ''overview'' = Some t
                \<and> attempt_reply env cfg t k = Inr v
                \<and> doc = JObj (AList.update ?vp (JArr (map JNum v)) kvs)) rest docs"
    by blast
  have get: "getitem object ''overview'' = Inr t"
    by (simp add: getitem_def object overview)
  have "single_pass ?vp collection counter (object # rest)
          (EmbeddingRequest t # attempts @ Inserted ?db ?c ?doc # ?pause @ evs)"
    using get att _ pass by (rule single_pass_step) (simp add: object stored_update)
  moreover have "trace w' = trace w @ (EmbeddingRequest t # attempts @ Inserted ?db ?c ?doc # ?pause @ evs)"
    by (simp only: t4 t3 t2 t1 append_assoc append_Cons append_Nil)
  moreover have "documents (the_collection w' ?db ?c) = documents (the_collection w ?db ?c) @ (?doc # docs)"
    by (simp add: d4 the_collection_same [OF d3] d2 the_collection_same [OF d1])
  moreover have "list_all2 (\<lambda>object doc. \<exists>kvs t v k. object = JObj kvs \<and> map_of kvs ''overview'' = Some t
                \<and> attempt_reply env cfg t k = Inr v
                \<and> doc = JObj (AList.update ?vp (JArr (map JNum v)) kvs)) (object # rest) (?doc # docs)"
    using each object overview reply by auto
  ultimately show ?case using n by (intro conjI exI [of _ "?doc # docs"] exI) simp_all
qed


lemma generate_embeddings_succeeds:
  assumes "k < 20"
    and "\<forall>j<k. isl (attempt_reply env cfg text (api_calls w + j))"
    and "attempt_reply env cfg text (api_calls w + k) = Inr v"
  shows "fst (generate_embeddings env cfg text w) = Inr v
     \<and> api_calls (snd (generate_embeddings env cfg text w)) = api_calls w + k + 1"
proof -
  from assms(1) have "1 + k \<le> 20" by simp
  from retry_call_succeeds [OF this assms(2) assms(3)] show ?thesis
    by (simp add: generate_embeddings_def)
qed

lemma generate_embeddings_exhausted:
  assumes "\<forall>j<20. isl (attempt_reply env cfg text (api_calls w + j))"
  shows "\<exists>e. fst (generate_embeddings env cfg text w) = Inl (RetryError e)
     \<and> api_calls (snd (generate_embeddings env cfg text w)) = api_calls w + 20"
proof -
  from assms have "\<forall>j\<le>20 - 1. isl (attempt_reply env cfg text (api_calls w + j))" by simp
  from retry_call_exhausted [OF this] show ?thesis
    by (simp add: generate_embeddings_def)
qed

lemma generate_embeddings_answers:
  assumes "\<exists>k<20. \<not> isl (attempt_reply env cfg text (api_calls w + k))"
  shows "\<exists>v w1. generate_embeddings env cfg text w = (Inr v, w1)"
proof -
  let ?ok = "\<lambda>k. k < 20 \<and> \<not> isl (attempt_reply env cfg text (api_calls w + k))"
  from assms have "\<exists>k. ?ok k" by blast
  then obtain k where k: "?ok k" and least: "\<forall>j<k. \<not> ?ok j"
    unfolding exists_least_iff [of ?ok] by blast
  from k least have before: "\<forall>j<k. isl (attempt_reply env cfg text (api_calls w + j))"
    by (meson less_trans)
  from k obtain v where "attempt_reply env cfg text (api_calls w + k) = Inr v"
    by (cases "attempt_reply env cfg text (api_calls w + k)") simp_all
  with k before have "fst (generate_embeddings env cfg text w) = Inr v"
    by (simp add: generate_embeddings_succeeds)
  then show ?thesis by (cases "generate_embeddings env cfg text w") auto
qed

lemma ingest_completes:
  assumes records: "\<forall>object\<in>set stream. \<exists>t. getitem object ''overview'' = Inr t"
    and answered: "\<forall>n t. \<exists>k<20. \<not> isl (attempt_reply env cfg t (n + k))"
    and accepted: "\<forall>n doc. insert_refused env n doc = None"
  shows "\<exists>n w'. ingest env cfg collection stream counter w = (Inr n, w')"
  using records
proof (induction stream arbitrary: counter w)
  case Nil
  show ?case by simp
next
  case (Cons object rest)
  from Cons.prems obtain t where get: "getitem object ''overview'' = Inr t" by auto
  then obtain kvs where object: "object = JObj kvs"
    by (cases object) (simp_all add: getitem_def)
  from answered have "\<exists>k<20. \<not> isl (attempt_reply env cfg t (api_calls w + k))" by blast
  from generate_embeddings_answers [OF this] obtain v w1 where
    gen: "generate_embeddings env cfg t w = (Inr v, w1)" by blast
  have ins: "\<exists>w2. insert_one env collection
      (JObj (AList.update (cosmos_vector_property cfg) (JArr (map JNum v)) kvs)) w1 = (Inr (), w2)"
    by (simp add: insert_one_def Let_def accepted)
  then obtain w2 where ins: "insert_one env collection
      (JObj (AList.update (cosmos_vector_property cfg) (JArr (map JNum v)) kvs)) w1 = (Inr (), w2)" ..
  from Cons.prems have "\<forall>object\<in>set rest. \<exists>t. getitem object ''overview'' = Inr t" by simp
  from Cons.IH [OF this] get gen ins show ?case
    by (simp add: object setitem_def)
qed


lemma generate_embeddings_last_reply:
  assumes "generate_embeddings env cfg text w = (Inr v, w1)"
  shows "\<exists>k. api_calls w \<le> k \<and> k < api_calls w1 \<and> attempt_reply env cfg text k = Inr v"
proof -
  let ?R = "retry_call env 20 1 200 (generate_embeddings_body env cfg text) 1 w"
  from assms have r: "?R = (Inr v, w1)" by (simp only: generate_embeddings_def)
  then have "fst ?R = Inr v" by (simp only: fst_conv)
  from retry_call_last_reply [OF this]
  have "attempt_reply env cfg text (api_calls (snd ?R) - 1) = Inr v \<and> api_calls w < api_calls (snd ?R)" .
  then have "attempt_reply env cfg text (api_calls w1 - 1) = Inr v" and "api_calls w < api_calls w1"
    unfolding r snd_conv by blast+
  then show ?thesis by (intro exI [of _ "api_calls w1 - 1"]) simp
qed

lemma insert_one_keeps:
  assumes "insert_one env collection doc w = (Inr u, w')"
  shows "api_calls w' = api_calls w
     \<and> index_specs (the_collection w' (database_name collection) (name collection))
         = index_specs (the_collection w (database_name collection) (name collection))"
  using assms
  by (auto simp: insert_one_def Let_def the_collection_def the_database_def put_collection_def
      split: jval.splits option.splits)

lemma pause_keeps:
  "api_calls (if Suc counter mod 100 = 0 then sleep (1 / 2) (print_progress (Suc counter) c w) else w)
     = api_calls w"
  by (simp add: sleep_def print_progress_def)

lemma generate_embeddings_calls:
  "api_calls w \<le> api_calls (snd (generate_embeddings env cfg text w))"
  using retry_call_calls [of w env 20 1 200 cfg "text" 1]
  by (simp add: generate_embeddings_def)

lemma ingest_vectors:
  assumes "ingest env cfg collection stream counter w = (Inr n, w')"
  shows "n = counter + length stream
     \<and> api_calls w \<le> api_calls w'
     \<and> index_specs (the_collection w' (database_name collection) (name collection))
         = index_specs (the_collection w (database_name collection) (name collection))
     \<and> (\<exists>docs. documents (the_collection w' (database_name collection) (name collection))
              = documents (the_collection w (database_name collection) (name collection)) @ docs
          \<and> list_all2 (\<lambda>object doc. \<exists>kvs t v k. object = JObj kvs \<and> map_of kvs ''overview'' = Some t
                \<and> api_calls w \<le> k \<and> k < api_calls w'
                \<and> attempt_reply env cfg t k = Inr v
                \<and> doc = JObj (AList.update (cosmos_vector_property cfg) (JArr (map JNum v)) kvs))
              stream docs)"
  using assms
proof (induction stream arbitrary: counter w)
  case Nil
  then show ?case by simp
next
  case (Cons object rest)
  let ?vp = "cosmos_vector_property cfg"
  let ?db = "database_name collection" and ?c = "name collection"
  from Cons.prems obtain kvs t v w1 u w2 where
    object: "object = JObj kvs" and overview: "map_of kvs ''overview'' = Some t"
    and gen: "generate_embeddings env cfg t w = (Inr v, w1)"
    and ins: "insert_one env collection (JObj (AList.update ?vp (JArr (map JNum v)) kvs)) w1 = (Inr u, w2)"
    and rest: "ingest env cfg collection rest (counter + 1)
           (if (counter + 1) mod 100 = 0
            then sleep (1 / 2) (print_progress (counter + 1) ?c w2) else w2) = (Inr n, w')"
    by (rule ingest_Cons_Inr)
  let ?doc = "JObj (AList.update ?vp (JArr (map JNum v)) kvs)"
  let ?w3 = "if Suc counter mod 100 = 0 then sleep (1 / 2) (print_progress (Suc counter) ?c w2) else w2"
  from rest have rest': "ingest env cfg collection rest (Suc counter) ?w3 = (Inr n, w')"
    by (simp only: Suc_eq_plus1)
  from generate_embeddings_frame [of env cfg t w] gen have d1: "databases w1 = databases w" by simp
  from generate_embeddings_last_reply [OF gen] obtain k where
    k: "api_calls w \<le> k" "k < api_calls w1" and reply: "attempt_reply env cfg t k = Inr v" by blast
  from insert_one_Inr [OF ins]
  have d2: "documents (the_collection w2 ?db ?c) = documents (the_collection w1 ?db ?c) @ [?doc]"
    by simp
  from insert_one_keeps [OF ins] have a2: "api_calls w2 = api_calls w1"
    and i2: "index_specs (the_collection w2 ?db ?c) = index_specs (the_collection w1 ?db ?c)"
    by simp_all
  from pause_effect [of counter ?c w2] have d3: "databases ?w3 = databases w2" by simp
  from pause_keeps [of counter ?c w2] have a3: "api_calls ?w3 = api_calls w2" .
  from Cons.IH [OF rest'] obtain docs where
    n: "n = Suc counter + length rest"
    and a4: "api_calls ?w3 \<le> api_calls w'"
    and i4: "index_specs (the_collection w' ?db ?c) = index_specs (the_collection ?w3 ?db ?c)"
    and d4: "documents (the_collection w' ?db ?c) = documents (the_collection ?w3 ?db ?c) @ docs"
    and each: "list_all2 (\<lambda>object doc. \<exists>kvs t v k. object = JObj kvs \<and> map_of kvs ''overview'' = Some t
                \<and> api_calls ?w3 \<le> k \<and> k < api_calls w'
                \<and> attempt_reply env cfg t k = Inr v
                \<and> doc = JObj (AList.update ?vp (JArr (map JNum v)) kvs)) rest docs"
    by blast
  have calls: "api_calls w \<le> api_calls w1" "api_calls w1 \<le> api_calls w'"
    using k a4 by (simp_all add: a3 a2)
  have later: "list_all2 (\<lambda>object doc. \<exists>kvs t v k. object = JObj kvs \<and> map_of kvs ''overview'' = Some t
                \<and> api_calls w \<le> k \<and> k < api_calls w'
                \<and> attempt_reply env cfg t k = Inr v
                \<and> doc = JObj (AList.update ?vp (JArr (map JNum v)) kvs)) rest docs"
  proof (rule list_all2_mono [OF each])
    fix x y
    assume "\<exists>kvs t v k. x = JObj kvs \<and> map_of kvs ''overview'' = Some t
                \<and> api_calls ?w3 \<le> k \<and> k < api_calls w'
                \<and> attempt_reply env cfg t k = Inr v
                \<and> y = JObj (AList.update ?vp (JArr (map JNum v)) kvs)"
    then obtain kvs' t' v' k' where "x = JObj kvs'" "map_of kvs' ''overview'' = Some t'"
      "api_calls ?w3 \<le> k'" "k' < api_calls w'" "attempt_reply env cfg t' k' = Inr v'"
      "y = JObj (AList.update ?vp (JArr (map JNum v')) kvs')" by blast
    moreover from this(3) calls(1) have "api_calls w \<le> k'" by (simp add: a3 a2)
    ultimately show "\<exists>kvs t v k. x = JObj kvs \<and> map_of kvs ''overview'' = Some t
                \<and> api_calls w \<le> k \<and> k < api_calls w'
                \<and> attempt_reply env cfg t k = Inr v
                \<and> y = JObj (AList.update ?vp (JArr (map JNum v)) kvs)" by blast
  qed
  have first: "\<exists>kvs t v k. object = JObj kvs \<and> map_of kvs ''overview'' = Some t
                \<and> api_calls w \<le> k \<and> k < api_calls w'
                \<and> attempt_reply env cfg t k = Inr v
                \<and> ?doc = JObj (AList.update ?vp (JArr (map JNum v)) kvs)"
    using object overview k reply calls(2) by (intro exI [of _ kvs] exI [of _ t] exI [of _ v] exI [of _ k]) simp
  have "api_calls w \<le> api_calls w'" using calls by simp
  moreover have "index_specs (the_collection w' ?db ?c) = index_specs (the_collection w ?db ?c)"
    by (simp add: i4 the_collection_same [OF d3] i2 the_collection_same [OF d1])
  moreover have "documents (the_collection w' ?db ?c) = documents (the_collection w ?db ?c) @ (?doc # docs)"
    by (simp add: d4 the_collection_same [OF d3] d2 the_collection_same [OF d1])
  moreover have "list_all2 (\<lambda>object doc. \<exists>kvs t v k. object = JObj kvs \<and> map_of kvs ''overview'' = Some t
                \<and> api_calls w \<le> k \<and> k < api_calls w'
                \<and> attempt_reply env cfg t k = Inr v
                \<and> doc = JObj (AList.update ?vp (JArr (map JNum v)) kvs)) (object # rest) (?doc # docs)"
    using first later by simp
  ultimately show ?case using n by (intro conjI exI [of _ "?doc # docs"]) simp_all
qed

lemma embedded_update:
  assumes "map_of kvs ''overview'' = Some t" and "first \<le> k" and "k < beyond"
    and "attempt_reply env cfg t k = Inr v" and "length v = n"
  shows "embedded env cfg n first beyond (JObj kvs)
           (JObj (AList.update (cosmos_vector_property cfg) (JArr (map JNum v)) kvs))"
  using assms
  by (auto simp: embedded_def getitem_def setitem_def list_ex_iff intro!: bexI [of _ k])

text \<open>
  A run that makes no request embeds nothing, and an array of the right length that is not
  the endpoint's reply is not an embedding of the record.
\<close>

lemma embedded_needs_a_request: "\<not> embedded env cfg d n n object doc"
  by (simp add: embedded_def split: sum.splits)

lemma embedded_rejects_other_vector:
  "\<not> embedded flaky_env demo_config 2 0 5 toy_story
      (JObj [(''title'', JStr ''Toy Story''),
             (''overview'', JStr ''A toy spaceship crashes on a desert planet''),
             (''vector'', JArr [JNull, JNull])])"
  by (auto simp: embedded_def list_ex_iff getitem_def setitem_def toy_story_def demo_config_def
      attempt_reply_def reply_embedding_def flaky_env_def split: sum.splits if_splits)

lemma reply_has_dimensions:
  assumes dims: "\<forall>n t model d data. embeddings_create env n t model d = Inr data \<longrightarrow> (\<forall>v\<in>set data. length v = d)"
    and "attempt_reply env cfg t k = Inr v"
  shows "length v = 1536"
proof -
  from assms(2) obtain data where "embeddings_create env k t (embedding_deployment cfg) 1536 = Inr data"
    and "v \<in> set data"
    by (auto simp: attempt_reply_def reply_embedding_def split: sum.splits list.splits)
  with dims show ?thesis by blast
qed

lemma ingestion_Inr:
  "ingest env cfg collection stream 0 w = (Inr n, w1)
   \<Longrightarrow> ingestion env cfg collection stream w = (Inr n, w1\<lparr>trace := trace w1 @ [Finished (name collection)]\<rparr>)"
  by (simp add: ingestion_def)

lemma attempts_no_pause:
  "list_all (is_attempt t) evs \<Longrightarrow> filter is_pause evs = []"
proof (induction evs)
  case Nil
  show ?case by simp
next
  case (Cons e evs)
  then show ?case by (cases e) simp_all
qed

lemma attempts_no_insertion:
  "list_all (is_attempt t) evs \<Longrightarrow> filter is_insertion evs = []"
proof (induction evs)
  case Nil
  show ?case by simp
next
  case (Cons e evs)
  then show ?case by (cases e) simp_all
qed

lemma single_pass_Cons:
  assumes "single_pass vp collection counter (object # rest) evs"
  obtains t attempts doc evs' where
    "evs = EmbeddingRequest t # attempts @ Inserted (database_name collection) (name collection) doc
             # expected_pause (Suc counter) (name collection) @ evs'"
    and "list_all (is_attempt t) attempts"
    and "single_pass vp collection (Suc counter) rest evs'"
proof -
  let ?pause = "expected_pause (Suc counter) (name collection)"
  from assms obtain t where get: "getitem object ''overview'' = Inr t"
    by (auto simp: single_pass.simps(2) split: sum.splits)
  from assms get obtain more where evs: "evs = EmbeddingRequest t # more"
    by (auto simp: single_pass.simps(2) split: list.splits event.splits)
  from assms get evs obtain doc evs1 where
    drop: "dropWhile (is_attempt t) more = Inserted (database_name collection) (name collection) doc # evs1"
    by (auto simp: single_pass.simps(2) split: list.splits event.splits)
  from assms get evs drop have pause: "take (length ?pause) evs1 = ?pause"
    and pass: "single_pass vp collection (Suc counter) rest (drop (length ?pause) evs1)"
    by (simp_all add: single_pass.simps(2) Let_def)
  let ?attempts = "takeWhile (is_attempt t) more"
  have "more = ?attempts @ Inserted (database_name collection) (name collection) doc # evs1"
    using drop takeWhile_dropWhile_id [of "is_attempt t" more] by simp
  moreover have "evs1 = ?pause @ drop (length ?pause) evs1"
    using pause append_take_drop_id [of "length ?pause" evs1] by simp
  ultimately have "evs = EmbeddingRequest t # ?attempts
      @ Inserted (database_name collection) (name collection) doc # ?pause @ drop (length ?pause) evs1"
    using evs by simp
  moreover have "list_all (is_attempt t) ?attempts"
    by (auto simp: list_all_iff dest: set_takeWhileD)
  ultimately show ?thesis using pass by (rule that)
qed

lemma single_pass_pauses:
  "single_pass vp collection counter stream evs
   \<Longrightarrow> length (filter is_pause evs) = (counter + length stream) div 100 - counter div 100"
proof (induction stream arbitrary: counter evs)
  case Nil
  then show ?case by simp
next
  case (Cons object rest)
  from Cons.prems obtain t attempts doc evs' where
    evs: "evs = EmbeddingRequest t # attempts @ Inserted (database_name collection) (name collection) doc
             # expected_pause (Suc counter) (name collection) @ evs'"
    and att: "list_all (is_attempt t) attempts"
    and pass: "single_pass vp collection (Suc counter) rest evs'"
    by (rule single_pass_Cons)
  from Cons.IH [OF pass] have later:
    "length (filter is_pause evs') = (Suc counter + length rest) div 100 - Suc counter div 100" .
  have mono: "Suc counter div 100 \<le> (Suc counter + length rest) div 100"
    by (rule div_le_mono) simp
  have now: "length (filter is_pause evs)
      = (if Suc counter mod 100 = 0 then 1 else 0) + length (filter is_pause evs')"
    by (simp add: evs attempts_no_pause [OF att] expected_pause_def)
  have step: "Suc counter div 100 = counter div 100 + (if Suc counter mod 100 = 0 then 1 else 0)"
    by (simp add: div_Suc)
  have total: "(counter + length (object # rest)) div 100 = (Suc counter + length rest) div 100"
    by simp
  from now later mono step show ?case
    unfolding total by (simp split: if_splits)
qed

lemma single_pass_insertions:
  "single_pass vp collection counter stream evs \<Longrightarrow> length (filter is_insertion evs) = length stream"
proof (induction stream arbitrary: counter evs)
  case Nil
  then show ?case by simp
next
  case (Cons object rest)
  from Cons.prems obtain t attempts doc evs' where
    evs: "evs = EmbeddingRequest t # attempts @ Inserted (database_name collection) (name collection) doc
             # expected_pause (Suc counter) (name collection) @ evs'"
    and att: "list_all (is_attempt t) attempts"
    and pass: "single_pass vp collection (Suc counter) rest evs'"
    by (rule single_pass_Cons)
  from Cons.IH [OF pass] show ?case
    by (simp add: evs attempts_no_insertion [OF att] expected_pause_def)
qed

text \<open>
  The checker on small traces: it accepts a record whose embedding needed a second
  attempt, and rejects a run that skips a record, inserts one twice, pauses before the
  100th record or does not pause after it.
\<close>

lemmas pass_simps =
  single_pass.simps(2) stored_def getitem_def setitem_def expected_pause_def Let_def
  toy_story_def jumanji_def toy_story_stored_def movies_def

lemma single_pass_accepts_retried_record:
  "single_pass ''vector'' movies 0 [toy_story]
     [EmbeddingRequest (JStr ''A toy spaceship crashes on a desert planet''), RetryWait 1,
      EmbeddingRequest (JStr ''A toy spaceship crashes on a desert planet''),
      Inserted ''lab'' ''movies'' toy_story_stored]"
  by (simp add: pass_simps)

lemma single_pass_rejects_skipped_record:
  "\<not> single_pass ''vector'' movies 0 [toy_story, jumanji]
     [EmbeddingRequest (JStr ''A toy spaceship crashes on a desert planet''),
      Inserted ''lab'' ''movies'' toy_story_stored]"
  by (simp add: pass_simps)

lemma single_pass_rejects_second_insertion:
  "\<not> single_pass ''vector'' movies 0 [toy_story]
     [EmbeddingRequest (JStr ''A toy spaceship crashes on a desert planet''),
      Inserted ''lab'' ''movies'' toy_story_stored,
      Inserted ''lab'' ''movies'' toy_story_stored]"
  by (simp add: pass_simps)

lemma single_pass_rejects_early_pause:
  "\<not> single_pass ''vector'' movies 0 [toy_story]
     [EmbeddingRequest (JStr ''A toy spaceship crashes on a desert planet''),
      Inserted ''lab'' ''movies'' toy_story_stored,
      Progress 1 ''movies'', Pause (1 / 2)]"
  by (simp add: pass_simps)

lemma single_pass_wants_pause_after_100:
  "single_pass ''vector'' movies 99 [toy_story]
     [EmbeddingRequest (JStr ''A toy spaceship crashes on a desert planet''),
      Inserted ''lab'' ''movies'' toy_story_stored,
      Progress 100 ''movies'', Pause (1 / 2)]
   \<and> \<not> single_pass ''vector'' movies 99 [toy_story]
     [EmbeddingRequest (JStr ''A toy spaceship crashes on a desert planet''),
      Inserted ''lab'' ''movies'' toy_story_stored]"
  by (simp add: pass_simps)


lemma ingest_append:
  "ingest env cfg collection (xs @ ys) counter w =
     (case ingest env cfg collection xs counter w of
        (Inl e, w1) \<Rightarrow> (Inl e, w1)
      | (Inr n, w1) \<Rightarrow> ingest env cfg collection ys n w1)"
proof (induction xs arbitrary: counter w)
  case Nil
  show ?case by simp
next
  case (Cons object xs)
  show ?case
    by (simp add: Cons.IH split: sum.splits prod.splits)
qed

lemma ingest_exhausted:
  assumes get: "getitem object ''overview'' = Inr text"
    and dead: "\<forall>j<20. isl (attempt_reply env cfg text (api_calls w + j))"
  shows "\<exists>e w'. ingest env cfg collection (object # rest) counter w = (Inl (RetryError e), w')
     \<and> databases w' = databases w"
proof -
  from generate_embeddings_exhausted [OF dead] obtain e where
    e: "fst (generate_embeddings env cfg text w) = Inl (RetryError e)" by blast
  obtain r w1 where gen: "generate_embeddings env cfg text w = (r, w1)"
    by (cases "generate_embeddings env cfg text w")
  with e have r: "r = Inl (RetryError e)" by simp
  from generate_embeddings_frame [of env cfg "text" w] gen have "databases w1 = databases w" by simp
  with get gen r show ?thesis by simp
qed

lemmas run_simps =
  expected_pause_def uniform_def wait_exponential_def getitem_def setitem_def
  generate_embeddings_def retry_call_body attempt_reply_def reply_embedding_def requested_def waited_def insert_one_def Let_def put_collection_def
  the_collection_def the_database_def empty_collection_def fresh_world_def demo_config_def
  movies_def toy_story_def jumanji_def

text \<open>
  C4. \<open>generate_embeddings\<close>, the embedding call of the ingestion loop, retries under a
  bounded policy. Every nap between two attempts lasts at most 200 seconds (the random
  numbers being in the unit interval), and a call makes at most 20 requests. If
  fewer than 20 requests fail before one is answered, the call returns that embedding. If
  20 requests in a row fail, the call raises a \<open>RetryError\<close> around the last failure; the
  ingestion cell then fails with that error at the record concerned, and the server is left
  as it was before that record: no document is stored for it, and none is skipped silently.
\<close>

theorem generate_embeddings_bounded_retry:
  assumes unit: "\<forall>n. 0 \<le> random_unit env n \<and> random_unit env n \<le> 1"
  shows "(\<forall>d. RetryWait d \<in> set (trace (snd (generate_embeddings env cfg text w)))
            \<longrightarrow> RetryWait d \<in> set (trace w) \<or> (0 \<le> d \<and> d \<le> 200))
     \<and> api_calls (snd (generate_embeddings env cfg text w)) \<le> api_calls w + 20
     \<and> (\<forall>k v. k < 20 \<and> (\<forall>j<k. isl (attempt_reply env cfg text (api_calls w + j)))
              \<and> attempt_reply env cfg text (api_calls w + k) = Inr v
            \<longrightarrow> fst (generate_embeddings env cfg text w) = Inr v)
     \<and> ((\<forall>j<20. isl (attempt_reply env cfg text (api_calls w + j)))
            \<longrightarrow> (\<exists>e. fst (generate_embeddings env cfg text w) = Inl (RetryError e))
              \<and> (\<forall>collection before object rest counter w0.
                    ingest env cfg collection before 0 w0 = (Inr counter, w)
                    \<and> getitem object ''overview'' = Inr text
                  \<longrightarrow> (\<exists>e w'. ingestion env cfg collection (before @ object # rest) w0
                                 = (Inl (RetryError e), w')
                             \<and> databases w' = databases w)))"
proof (intro conjI allI impI)
  fix d
  assume "RetryWait d \<in> set (trace (snd (generate_embeddings env cfg text w)))"
  with retry_call_waits [OF unit, of 20 1 200 cfg "text" 1 w]
  have "RetryWait d \<in> set (trace w) \<or> (1 \<le> d \<and> d \<le> 200)"
    by (simp add: generate_embeddings_def)
  then show "RetryWait d \<in> set (trace w) \<or> (0 \<le> d \<and> d \<le> 200)"
    by auto
next
  from retry_call_calls [of w env 20 1 200 cfg "text" 1]
  show "api_calls (snd (generate_embeddings env cfg text w)) \<le> api_calls w + 20"
    by (simp add: generate_embeddings_def)
next
  fix k v
  assume "k < 20 \<and> (\<forall>j<k. isl (attempt_reply env cfg text (api_calls w + j)))
              \<and> attempt_reply env cfg text (api_calls w + k) = Inr v"
  then have "k < 20" and "\<forall>j<k. isl (attempt_reply env cfg text (api_calls w + j))"
    and "attempt_reply env cfg text (api_calls w + k) = Inr v" by simp_all
  from generate_embeddings_succeeds [OF this]
  show "fst (generate_embeddings env cfg text w) = Inr v" by simp
next
  assume "\<forall>j<20. isl (attempt_reply env cfg text (api_calls w + j))"
  from generate_embeddings_exhausted [OF this]
  show "\<exists>e. fst (generate_embeddings env cfg text w) = Inl (RetryError e)" by blast
next
  fix collection before object rest counter w0
  assume dead: "\<forall>j<20. isl (attempt_reply env cfg text (api_calls w + j))"
    and "ingest env cfg collection before 0 w0 = (Inr counter, w)
                    \<and> getitem object ''overview'' = Inr text"
  then have before: "ingest env cfg collection before 0 w0 = (Inr counter, w)"
    and get: "getitem object ''overview'' = Inr text" by simp_all
  from ingest_exhausted [OF get dead, of collection rest counter] obtain e w' where
    "ingest env cfg collection (object # rest) counter w = (Inl (RetryError e), w')"
    and "databases w' = databases w" by blast
  with before show "\<exists>e w'. ingestion env cfg collection (before @ object # rest) w0
                                 = (Inl (RetryError e), w')
                             \<and> databases w' = databases w"
    by (simp add: ingestion_def ingest_append)
qed

theorem generate_embeddings_bounded_retry_witness:
  "fst (generate_embeddings flaky_env demo_config (JStr ''A board game comes alive'') fresh_world)
     = Inr (replicate 1536 (1 / 4))
   \<and> trace (snd (generate_embeddings flaky_env demo_config (JStr ''A board game comes alive'') fresh_world))
     = [EmbeddingRequest (JStr ''A board game comes alive''), RetryWait 1,
        EmbeddingRequest (JStr ''A board game comes alive''), RetryWait (3 / 2),
        EmbeddingRequest (JStr ''A board game comes alive'')]
   \<and> (\<exists>e w'. ingestion dying_env demo_config movies [toy_story, jumanji] fresh_world
                 = (Inl (RetryError e), w')
            \<and> map (\<lambda>doc. getitem doc ''title'') (documents (the_collection w' ''lab'' ''movies''))
                 = [Inr (JStr ''Toy Story'')])"
proof -
  let ?text = "JStr ''A board game comes alive''"
  have unit1: "\<forall>n. 0 \<le> random_unit flaky_env n \<and> random_unit flaky_env n \<le> 1"
    by (simp add: flaky_env_def)
  have unit2: "\<forall>n. 0 \<le> random_unit dying_env n \<and> random_unit dying_env n \<le> 1"
    by (simp add: dying_env_def)
  note flaky = generate_embeddings_bounded_retry [OF unit1, of demo_config ?text fresh_world]
  have "2 < (20::nat) \<and> (\<forall>j<2. isl (attempt_reply flaky_env demo_config ?text (api_calls fresh_world + j)))
      \<and> attempt_reply flaky_env demo_config ?text (api_calls fresh_world + 2) = Inr (replicate 1536 (1 / 4))"
    by (simp add: attempt_reply_def reply_embedding_def flaky_env_def fresh_world_def)
  with flaky have one: "fst (generate_embeddings flaky_env demo_config ?text fresh_world)
     = Inr (replicate 1536 (1 / 4))" by blast
  have two: "trace (snd (generate_embeddings flaky_env demo_config ?text fresh_world))
     = [EmbeddingRequest ?text, RetryWait 1, EmbeddingRequest ?text, RetryWait (3 / 2),
        EmbeddingRequest ?text]"
    by (simp add: run_simps flaky_env_def)
  define w1 where "w1 = snd (ingest dying_env demo_config movies [toy_story] 0 fresh_world)"
  have first: "ingest dying_env demo_config movies [toy_story] 0 fresh_world = (Inr 1, w1)"
    unfolding w1_def by (simp add: run_simps dying_env_def)
  have calls: "api_calls w1 = 1"
    unfolding w1_def by (simp add: run_simps dying_env_def)
  have docs: "map (\<lambda>doc. getitem doc ''title'') (documents (the_collection w1 ''lab'' ''movies''))
                 = [Inr (JStr ''Toy Story'')]"
    unfolding w1_def by (simp add: run_simps dying_env_def)
  have dead: "\<forall>j<20. isl (attempt_reply dying_env demo_config ?text (api_calls w1 + j))"
    by (simp add: calls attempt_reply_def reply_embedding_def dying_env_def)
  have get: "getitem jumanji ''overview'' = Inr ?text"
    by (simp add: getitem_def jumanji_def)
  from generate_embeddings_bounded_retry [OF unit2, of demo_config ?text w1] dead first get
  obtain e w' where "ingestion dying_env demo_config movies ([toy_story] @ jumanji # []) fresh_world
                 = (Inl (RetryError e), w')" and "databases w' = databases w1"
    by blast
  with docs have three: "\<exists>e w'. ingestion dying_env demo_config movies [toy_story, jumanji] fresh_world
                 = (Inl (RetryError e), w')
            \<and> map (\<lambda>doc. getitem doc ''title'') (documents (the_collection w' ''lab'' ''movies''))
                 = [Inr (JStr ''Toy Story'')]"
    by (auto simp: the_collection_def the_database_def)
  from one two three show ?thesis by blast
qed

text \<open>
  C5. Take a finite stream of \<open>N\<close> records that all have the \<open>overview\<close> field, an embedding
  endpoint that returns vectors of the number of dimensions it is asked for and never fails
  20 requests in a row, and a server that refuses no document. Then ingestion returns
  normally with the counter at \<open>N\<close> and has appended exactly \<open>N\<close> documents to the
  content collection. The \<open>i\<close>-th of them is the \<open>i\<close>-th record with, under the vector
  property, the 1536 numbers that the endpoint returned to one of the run's requests for
  the embedding of that record's overview. Ingestion leaves the collection's indexes as
  they are; when the collection comes from the setup cell, the \<open>N\<close> documents are all it
  holds, and its one index declares 1536 dimensions.
\<close>

theorem ingestion_inserts_every_record:
  assumes records: "\<forall>object\<in>set stream. \<exists>t. getitem object ''overview'' = Inr t"
    and dims: "\<forall>n t model d data. embeddings_create env n t model d = Inr data \<longrightarrow> (\<forall>v\<in>set data. length v = d)"
    and answered: "\<forall>n t. \<exists>k<20. \<not> isl (attempt_reply env cfg t (n + k))"
    and accepted: "\<forall>n doc. insert_refused env n doc = None"
  shows "\<exists>w' docs. ingestion env cfg collection stream w = (Inr (length stream), w')
     \<and> documents (the_collection w' (database_name collection) (name collection))
         = documents (the_collection w (database_name collection) (name collection)) @ docs
     \<and> length docs = length stream
     \<and> list_all2 (embedded env cfg 1536 (api_calls w) (api_calls w')) stream docs
     \<and> index_specs (the_collection w' (database_name collection) (name collection))
         = index_specs (the_collection w (database_name collection) (name collection))
     \<and> (\<forall>w0 cache. database_setup cfg w0 = (Inr (collection, cache), w)
           \<longrightarrow> documents (the_collection w' (database_name collection) (name collection)) = docs
             \<and> map dimensions_declared
                   (index_specs (the_collection w' (database_name collection) (name collection)))
                 = [Inr (JInt 1536)])"
proof -
  let ?vp = "cosmos_vector_property cfg"
  let ?db = "database_name collection" and ?c = "name collection"
  from ingest_completes [OF records answered accepted, of collection 0 w]
  obtain n w1 where run: "ingest env cfg collection stream 0 w = (Inr n, w1)" by blast
  from ingest_vectors [OF run] obtain docs where
    n: "n = length stream"
    and i: "index_specs (the_collection w1 ?db ?c) = index_specs (the_collection w ?db ?c)"
    and d: "documents (the_collection w1 ?db ?c) = documents (the_collection w ?db ?c) @ docs"
    and each: "list_all2 (\<lambda>object doc. \<exists>kvs t v k. object = JObj kvs \<and> map_of kvs ''overview'' = Some t
                \<and> api_calls w \<le> k \<and> k < api_calls w1
                \<and> attempt_reply env cfg t k = Inr v
                \<and> doc = JObj (AList.update ?vp (JArr (map JNum v)) kvs)) stream docs"
    by auto
  let ?w' = "w1\<lparr>trace := trace w1 @ [Finished ?c]\<rparr>"
  have same: "the_collection ?w' ?db ?c = the_collection w1 ?db ?c"
    by (simp add: the_collection_def the_database_def)
  have result: "ingestion env cfg collection stream w = (Inr (length stream), ?w')"
    using ingestion_Inr [OF run] n by simp
  have appended: "documents (the_collection ?w' ?db ?c) = documents (the_collection w ?db ?c) @ docs"
    using d by (simp only: same)
  have indexes: "index_specs (the_collection ?w' ?db ?c) = index_specs (the_collection w ?db ?c)"
    using i by (simp only: same)
  from each have len: "length docs = length stream"
    by (simp add: list_all2_lengthD)
  from each have vectors: "list_all2 (embedded env cfg 1536 (api_calls w) (api_calls ?w')) stream docs"
  proof (rule list_all2_mono)
    fix object doc
    assume "\<exists>kvs t v k. object = JObj kvs \<and> map_of kvs ''overview'' = Some t
                \<and> api_calls w \<le> k \<and> k < api_calls w1
                \<and> attempt_reply env cfg t k = Inr v
                \<and> doc = JObj (AList.update ?vp (JArr (map JNum v)) kvs)"
    then obtain kvs t v k where object: "object = JObj kvs"
      and overview: "map_of kvs ''overview'' = Some t"
      and k: "api_calls w \<le> k" "k < api_calls ?w'"
      and reply: "attempt_reply env cfg t k = Inr v"
      and doc: "doc = JObj (AList.update ?vp (JArr (map JNum v)) kvs)" by auto
    from reply_has_dimensions [OF dims reply] have "length v = 1536" .
    with overview k reply show "embedded env cfg 1536 (api_calls w) (api_calls ?w') object doc"
      unfolding object doc by (intro embedded_update)
  qed
  have after_setup: "\<forall>w0 cache. database_setup cfg w0 = (Inr (collection, cache), w)
           \<longrightarrow> documents (the_collection ?w' ?db ?c) = docs
             \<and> map dimensions_declared (index_specs (the_collection ?w' ?db ?c)) = [Inr (JInt 1536)]"
  proof (intro allI impI)
    fix w0 cache
    assume "database_setup cfg w0 = (Inr (collection, cache), w)"
    from database_setup_Inr [OF this]
    have "the_collection w ?db ?c = \<lparr>documents = [], index_specs = [vector_search_index ?vp]\<rparr>"
      by simp
    then have "documents (the_collection w ?db ?c) = []"
      and "index_specs (the_collection w ?db ?c) = [vector_search_index ?vp]" by simp_all
    moreover have "dimensions_declared (vector_search_index ?vp) = Inr (JInt 1536)"
      by (simp add: dimensions_declared_def vector_search_index_def getitem_def)
    ultimately show "documents (the_collection ?w' ?db ?c) = docs
             \<and> map dimensions_declared (index_specs (the_collection ?w' ?db ?c)) = [Inr (JInt 1536)]"
      by (simp only: appended indexes append_Nil list.map simp_thms)
  qed
  from result appended len vectors indexes after_setup show ?thesis
    by (intro exI [of _ ?w'] exI [of _ docs] conjI)
qed

lemma embedded_by_flaky_env:
  assumes "embedded flaky_env demo_config 1536 first beyond object doc"
  shows "getitem doc ''vector'' = Inr (JArr (replicate 1536 (JNum (1 / 4))))"
proof -
  from assms obtain t where t: "getitem object ''overview'' = Inr t"
    by (cases "getitem object ''overview''") (simp_all add: embedded_def)
  with assms obtain k where
    "case attempt_reply flaky_env demo_config t k of
       Inl _ \<Rightarrow> False
     | Inr v \<Rightarrow> length v = 1536 \<and>
         setitem object (cosmos_vector_property demo_config) (JArr (map JNum v)) = Inr doc"
    by (auto simp: embedded_def list_ex_iff)
  then obtain v where reply: "attempt_reply flaky_env demo_config t k = Inr v"
    and doc: "setitem object (cosmos_vector_property demo_config) (JArr (map JNum v)) = Inr doc"
    by (cases "attempt_reply flaky_env demo_config t k") simp_all
  from reply have "v = replicate 1536 (1 / 4)"
    by (auto simp: attempt_reply_def reply_embedding_def flaky_env_def split: if_splits)
  with doc show ?thesis
    by (auto simp: setitem_def getitem_def demo_config_def update_conv' split: jval.splits)
qed

lemma list_all2_right:
  "list_all2 P xs ys \<Longrightarrow> (\<And>x y. P x y \<Longrightarrow> Q y) \<Longrightarrow> list_all Q ys"
  by (induction rule: list_all2_induct) auto

theorem ingestion_inserts_every_record_witness:
  "\<exists>cache w w' docs. database_setup demo_config stale_world = (Inr (movies, cache), w)
     \<and> ingestion flaky_env demo_config movies [toy_story, jumanji] w = (Inr 2, w')
     \<and> documents (the_collection w' ''lab'' ''movies'') = docs
     \<and> length docs = 2
     \<and> list_all2 (embedded flaky_env demo_config 1536 (api_calls w) (api_calls w'))
          [toy_story, jumanji] docs
     \<and> list_all (\<lambda>doc. getitem doc ''vector'' = Inr (JArr (replicate 1536 (JNum (1 / 4))))) docs
     \<and> map dimensions_declared (index_specs (the_collection w' ''lab'' ''movies''))
          = [Inr (JInt 1536)]"
proof -
  have records: "\<forall>object\<in>set [toy_story, jumanji]. \<exists>t. getitem object ''overview'' = Inr t"
    by (simp add: getitem_def toy_story_def jumanji_def)
  have dims: "\<forall>n t model d data. embeddings_create flaky_env n t model d = Inr data
      \<longrightarrow> (\<forall>v\<in>set data. length v = d)"
    by (auto simp: flaky_env_def split: if_splits)
  have answered: "\<forall>n t. \<exists>k<20. \<not> isl (attempt_reply flaky_env demo_config t (n + k))"
    by (intro allI exI [of _ 2]) (simp add: attempt_reply_def reply_embedding_def flaky_env_def)
  have accepted: "\<forall>n doc. insert_refused flaky_env n doc = None"
    by (simp add: flaky_env_def)
  have names: "database_name movies = ''lab''" "name movies = ''movies''"
    by (simp_all add: movies_def)
  have valid: "check_database_name (cosmos_database demo_config) = None"
    "check_collection_name (cosmos_collection demo_config) = None"
    "check_collection_name (cosmos_cache demo_config) = None"
    by (simp_all add: demo_config_def check_database_name_def check_collection_name_def
        invalid_database_chars_def)
  from database_setup_valid [OF valid, of stale_world] obtain cache w where
    made: "database_setup demo_config stale_world = (Inr (movies, cache), w)"
    by (auto simp: movies_def demo_config_def)
  from ingestion_inserts_every_record [OF records dims answered accepted, of movies w]
  obtain w' docs where
    run: "ingestion flaky_env demo_config movies [toy_story, jumanji] w
       = (Inr (length [toy_story, jumanji]), w')"
    and len: "length docs = length [toy_story, jumanji]"
    and each: "list_all2 (embedded flaky_env demo_config 1536 (api_calls w) (api_calls w'))
       [toy_story, jumanji] docs"
    and after: "\<forall>w0 cache. database_setup demo_config w0 = (Inr (movies, cache), w)
           \<longrightarrow> documents (the_collection w' (database_name movies) (name movies)) = docs
             \<and> map dimensions_declared
                   (index_specs (the_collection w' (database_name movies) (name movies)))
                 = [Inr (JInt 1536)]"
    by blast
  from after made have held: "documents (the_collection w' ''lab'' ''movies'') = docs"
    and index: "map dimensions_declared (index_specs (the_collection w' ''lab'' ''movies''))
                 = [Inr (JInt 1536)]"
    unfolding names by blast+
  from each have vectors:
    "list_all (\<lambda>doc. getitem doc ''vector'' = Inr (JArr (replicate 1536 (JNum (1 / 4))))) docs"
    by (rule list_all2_right) (rule embedded_by_flaky_env)
  from run have run': "ingestion flaky_env demo_config movies [toy_story, jumanji] w = (Inr 2, w')"
    by simp
  from len have len': "length docs = 2" by simp
  from made run' held len' each vectors index show ?thesis
    by (intro exI [of _ cache] exI [of _ w] exI [of _ w'] exI [of _ docs] conjI)
qed

text \<open>
  C7. Under the same conditions on the stream, the endpoint and the server, ingestion is
  one pass over the stream: it returns with the counter at the length of the stream, and
  the events of the run are, record by record in stream order, the requests for the
  record's embedding, its one insertion and, exactly after every 100th record, a progress
  line and a pause of half a second; the closing line comes last. So there are as many
  insertions as records, and one pause for every full hundred of them. The loop is a
  structural recursion over the finite stream, so it ends when the stream does.
\<close>

theorem ingestion_single_pass:
  assumes records: "\<forall>object\<in>set stream. \<exists>t. getitem object ''overview'' = Inr t"
    and answered: "\<forall>n t. \<exists>k<20. \<not> isl (attempt_reply env cfg t (n + k))"
    and accepted: "\<forall>n doc. insert_refused env n doc = None"
  shows "\<exists>w' evs. ingestion env cfg collection stream w = (Inr (length stream), w')
     \<and> trace w' = trace w @ evs @ [Finished (name collection)]
     \<and> single_pass (cosmos_vector_property cfg) collection 0 stream evs
     \<and> length (filter is_insertion evs) = length stream
     \<and> length (filter is_pause evs) = length stream div 100"
proof -
  from ingest_completes [OF records answered accepted, of collection 0 w]
  obtain n w1 where run: "ingest env cfg collection stream 0 w = (Inr n, w1)" by blast
  from ingest_shape [OF run] obtain evs where
    n: "n = length stream"
    and t: "trace w1 = trace w @ evs"
    and pass: "single_pass (cosmos_vector_property cfg) collection 0 stream evs"
    by auto
  let ?w' = "w1\<lparr>trace := trace w1 @ [Finished (name collection)]\<rparr>"
  have "ingestion env cfg collection stream w = (Inr (length stream), ?w')"
    using ingestion_Inr [OF run] n by simp
  moreover have "trace ?w' = trace w @ evs @ [Finished (name collection)]"
    by (simp add: t)
  moreover from single_pass_insertions [OF pass]
  have "length (filter is_insertion evs) = length stream" .
  moreover from single_pass_pauses [OF pass]
  have "length (filter is_pause evs) = length stream div 100" by simp
  ultimately show ?thesis using pass by blast
qed

theorem ingestion_single_pass_witness:
  "\<exists>w' evs. ingestion flaky_env demo_config movies (replicate 100 toy_story) fresh_world = (Inr 100, w')
     \<and> trace w' = evs @ [Finished ''movies'']
     \<and> single_pass ''vector'' movies 0 (replicate 100 toy_story) evs
     \<and> length (filter is_insertion evs) = 100
     \<and> length (filter is_pause evs) = 1"
proof -
  have records: "\<forall>object\<in>set (replicate 100 toy_story). \<exists>t. getitem object ''overview'' = Inr t"
    by (simp add: getitem_def toy_story_def)
  have answered: "\<forall>n t. \<exists>k<20. \<not> isl (attempt_reply flaky_env demo_config t (n + k))"
    by (intro allI exI [of _ 2]) (simp add: attempt_reply_def reply_embedding_def flaky_env_def)
  have accepted: "\<forall>n doc. insert_refused flaky_env n doc = None"
    by (simp add: flaky_env_def)
  have names: "name movies = ''movies''" "cosmos_vector_property demo_config = ''vector''"
    "trace fresh_world = []"
    by (simp_all add: movies_def demo_config_def fresh_world_def)
  from ingestion_single_pass [OF records answered accepted, of movies fresh_world]
  obtain w' evs where
    "ingestion flaky_env demo_config movies (replicate 100 toy_story) fresh_world
       = (Inr (length (replicate 100 toy_story)), w')"
    and "trace w' = trace fresh_world @ evs @ [Finished (name movies)]"
    and "single_pass (cosmos_vector_property demo_config) movies 0 (replicate 100 toy_story) evs"
    and "length (filter is_insertion evs) = length (replicate 100 toy_story)"
    and "length (filter is_pause evs) = length (replicate 100 toy_story) div 100"
    by blast
  then show ?thesis
    by (intro exI [of _ w'] exI [of _ evs]) (simp add: names)
qed



end
